theory Spec2Isabelle
  imports Complex_Main "HOL-Library.Log_Nat"
begin

section \<open>Numbers\<close>

text \<open>
  The components compute on JavaScript numbers, IEEE 754 doubles. A number is modelled
  by the real it denotes, and every arithmetic operation of the source rounds its exact
  result to the nearest double, ties to the even significand, as the hardware does:
  \<open>dbl\<close> is that rounding, for 53 bits of significand. The model has no exponent range
  (no overflow to infinity, no subnormal numbers below \<open>2^-1022\<close>), no \<open>NaN\<close> and no
  negative zero; the quantities here are seconds of a media file.

  \<open>expo a\<close> is the binary exponent of a positive \<open>a\<close>: \<open>2^(expo a) \<le> a < 2^(expo a + 1)\<close>.
\<close>

definition expo :: "real \<Rightarrow> int" where
  "expo a = (if 1 \<le> a then bitlen \<lfloor>a\<rfloor> - 1 else - bitlen (\<lceil>1 / a\<rceil> - 1))"

definition roundEven :: "real \<Rightarrow> int" where
  "roundEven y =
     (let f = \<lfloor>y\<rfloor>; r = y - of_int f
      in if r < 1/2 then f else if 1/2 < r then f + 1 else if even f then f else f + 1)"

definition dbl :: "real \<Rightarrow> real" where
  "dbl x =
     (if x = 0 then 0
      else let u = 2 powi (expo \<bar>x\<bar> - 52)
           in sgn x * (of_int (roundEven (\<bar>x\<bar> / u)) * u))"

text \<open>
  The four operations of the source on doubles. A decimal literal of the source is the
  double nearest to it: \<open>0.1\<close> is \<open>dbl (1/10)\<close>, while \<open>0.5\<close>, \<open>10\<close> and \<open>0\<close> are exact.
\<close>

definition fadd :: "real \<Rightarrow> real \<Rightarrow> real" where
  "fadd a b = dbl (a + b)"

definition fsub :: "real \<Rightarrow> real \<Rightarrow> real" where
  "fsub a b = dbl (a - b)"

definition fmul :: "real \<Rightarrow> real \<Rightarrow> real" where
  "fmul a b = dbl (a * b)"

definition fdiv :: "real \<Rightarrow> real \<Rightarrow> real" where
  "fdiv a b = dbl (a / b)"

text \<open>
  \<open>Math.round(x)\<close> is the integer nearest to \<open>x\<close>, a half rounding up; it is exact.
\<close>

definition js_round :: "real \<Rightarrow> int" where
  "js_round x = \<lfloor>x + 1/2\<rfloor>"

text \<open>
  \<^verbatim>\<open>
  /** Clamp a value between min and max, rounded to 1 decimal */
  function clamp(v: number, min: number, max: number): number {
    return Math.round(Math.max(min, Math.min(max, v)) * 10) / 10;
  }
  \<close>
\<close>

definition clamp :: "real \<Rightarrow> real \<Rightarrow> real \<Rightarrow> real" where
  "clamp v mn mx = fdiv (real_of_int (js_round (fmul (max mn (min mx v)) 10))) 10"

text \<open>
  A number with at most one decimal is the double nearest to some \<open>k/10\<close>; \<open>idx\<close> is
  that \<open>k\<close>. These are the values \<open>clamp\<close> returns.
\<close>

definition idx :: "real \<Rightarrow> int" where
  "idx y = \<lfloor>y * 10 + 1/2\<rfloor>"

definition oneDecimal :: "real \<Rightarrow> bool" where
  "oneDecimal y = (y = dbl (real_of_int (idx y) / 10))"

section \<open>The trim editor (TrimEditor and its Timeline)\<close>

datatype handle = HStart | HEnd

text \<open>
  The state of one mounted \<open>TrimEditor\<close>: the prop \<open>media.duration_seconds\<close>, the four
  \<open>useState\<close> cells, the \<open>dragging\<close> ref of the \<open>Timeline\<close>, the \<open>isPending\<close> flag of
  \<open>submitMut\<close>, and the \<open>api.startTrim\<close> requests issued so far (oldest first), each with
  its \<open>remove_start\<close> and \<open>remove_end\<close>.
\<close>

record trim_editor =
  duration_seconds :: "real option"
  start :: real
  end' :: real
  jobId :: "nat option"
  confirmed :: bool
  dragging :: "handle option"
  isPending :: bool
  requests :: "(real \<times> real) list"

text \<open>\<^verbatim>\<open>const total = media.duration_seconds ?? 1;\<close>\<close>

definition total :: "trim_editor \<Rightarrow> real" where
  "total st = (case duration_seconds st of None \<Rightarrow> 1 | Some d \<Rightarrow> d)"

definition removeDuration :: "trim_editor \<Rightarrow> real" where
  "removeDuration st = fsub (end' st) (start st)"

definition isProcessing :: "trim_editor \<Rightarrow> bool" where
  "isProcessing st = (jobId st \<noteq> None)"

text \<open>
  \<^verbatim>\<open>const isValid = start >= 0 && end <= total + 0.1 && removeDuration >= 0.5;\<close>
\<close>

definition isValid :: "trim_editor \<Rightarrow> bool" where
  "isValid st =
     (start st \<ge> 0 \<and> end' st \<le> fadd (total st) (dbl (1/10)) \<and> removeDuration st \<ge> 1/2)"

text \<open>
  \<^verbatim>\<open>
  const handleTimelineChange = (s: number, e: number) => {
    setStart(s);
    setEnd(e);
    if (confirmed) setConfirmed(false); // reset confirmation if they adjust
  };
  \<close>
\<close>

definition handleTimelineChange :: "real \<Rightarrow> real \<Rightarrow> trim_editor \<Rightarrow> trim_editor" where
  "handleTimelineChange s e st =
     (let st' = st\<lparr>start := s, end' := e\<rparr>
      in if confirmed st then st'\<lparr>confirmed := False\<rparr> else st')"

text \<open>
  \<^verbatim>\<open>
  const move = (t: number) => {
    if (dragging.current === "start") {
      onChange(clamp(t, 0, end - 0.5), end);
    } else if (dragging.current === "end") {
      onChange(start, clamp(t, start + 0.5, total));
    }
  };
  \<close>
  The \<open>Timeline\<close> is rendered with \<open>onChange={handleTimelineChange}\<close>.
\<close>

definition move :: "real \<Rightarrow> trim_editor \<Rightarrow> trim_editor" where
  "move t st =
     (case dragging st of
        Some HStart \<Rightarrow> handleTimelineChange (clamp t 0 (fsub (end' st) (1/2))) (end' st) st
      | Some HEnd \<Rightarrow>
          handleTimelineChange (start st) (clamp t (fadd (start st) (1/2)) (total st)) st
      | None \<Rightarrow> st)"

text \<open>
  \<open>toSeconds\<close> turns a pointer position into seconds. Its argument \<open>x\<close> stands for
  \<open>(clientX - rect.left) / rect.width\<close>, the position relative to the bar.
  \<^verbatim>\<open>
  const ratio = Math.max(0, Math.min(1, (clientX - rect.left) / rect.width));
  return clamp(ratio * total, 0, total);
  \<close>
\<close>

definition toSeconds :: "trim_editor \<Rightarrow> real \<Rightarrow> real" where
  "toSeconds st x =
     (let ratio = max 0 (min 1 x) in clamp (fmul ratio (total st)) 0 (total st))"

text \<open>
  \<^verbatim>\<open>
  const handlePointerDown = (e: React.PointerEvent) => {
    if (disabled) return;
    const t = toSeconds(e.clientX);
    // Pick the closer handle
    dragging.current = Math.abs(t - start) <= Math.abs(t - end) ? "start" : "end";
    move(t);
  };
  \<close>
  The editor renders the \<open>Timeline\<close> with \<open>disabled={false}\<close>.
\<close>

definition handlePointerDown :: "real \<Rightarrow> trim_editor \<Rightarrow> trim_editor" where
  "handlePointerDown x st =
     (let t = toSeconds st x
      in move t (st\<lparr>dragging :=
           Some (if \<bar>fsub t (start st)\<bar> \<le> \<bar>fsub t (end' st)\<bar> then HStart
                 else HEnd)\<rparr>))"

definition handlePointerMove :: "real \<Rightarrow> trim_editor \<Rightarrow> trim_editor" where
  "handlePointerMove x st = (if dragging st = None then st else move (toSeconds st x) st)"

definition handlePointerUp :: "trim_editor \<Rightarrow> trim_editor" where
  "handlePointerUp st = st\<lparr>dragging := None\<rparr>"

text \<open>
  \<^verbatim>\<open>
  const setStartSafe = (v: number) => setStart(clamp(v, 0, end - 0.5));
  const setEndSafe = (v: number) => setEnd(clamp(v, start + 0.5, total));
  \<close>
\<close>

definition setStartSafe :: "real \<Rightarrow> trim_editor \<Rightarrow> trim_editor" where
  "setStartSafe v st = st\<lparr>start := clamp v 0 (fsub (end' st) (1/2))\<rparr>"

definition setEndSafe :: "real \<Rightarrow> trim_editor \<Rightarrow> trim_editor" where
  "setEndSafe v st = st\<lparr>end' := clamp v (fadd (start st) (1/2)) (total st)\<rparr>"

text \<open>
  The number inputs call \<open>setStartSafe(parseFloat(e.target.value) || 0)\<close>: a text that
  does not parse (\<open>NaN\<close>, here \<open>None\<close>) counts as 0.
\<close>

definition orZero :: "real option \<Rightarrow> real" where
  "orZero p = (case p of None \<Rightarrow> 0 | Some v \<Rightarrow> v)"

text \<open>
  \<open>submitMut.mutate()\<close> sends \<open>api.startTrim\<close> with the current \<open>start\<close> and \<open>end\<close>.
  \<^verbatim>\<open>
  const handleConfirm = () => {
    if (!confirmed) {
      setConfirmed(true);
      return;
    }
    submitMut.mutate();
  };
  const handleRetry = () => {
    setJobId(null);
    setConfirmed(false);
    submitMut.reset();
  };
  \<close>
\<close>

definition mutate :: "trim_editor \<Rightarrow> trim_editor" where
  "mutate st = st\<lparr>isPending := True, requests := requests st @ [(start st, end' st)]\<rparr>"

definition handleConfirm :: "trim_editor \<Rightarrow> trim_editor" where
  "handleConfirm st = (if \<not> confirmed st then st\<lparr>confirmed := True\<rparr> else mutate st)"

definition handleRetry :: "trim_editor \<Rightarrow> trim_editor" where
  "handleRetry st = st\<lparr>jobId := None, confirmed := False, isPending := False\<rparr>"

text \<open>
  The confirm button exists only in the editing view (\<open>isProcessing\<close> false), with
  \<open>disabled={!isValid || submitMut.isPending}\<close>. \<open>Rendered d\<close> carries that attribute.
\<close>

datatype control = NotRendered | Rendered bool

definition confirmButton :: "trim_editor \<Rightarrow> control" where
  "confirmButton st =
     (if isProcessing st then NotRendered else Rendered (\<not> isValid st \<or> isPending st))"

text \<open>
  What can happen to a mounted editor. Pointer events carry the relative pointer
  position, input events the result of \<open>parseFloat\<close>. The timeline, the number inputs
  and the confirm button are part of the editing view only; a disabled button receives
  no click; \<open>SubmitSucceeded\<close> and \<open>SubmitFailed\<close> are the two outcomes of a pending
  \<open>api.startTrim\<close> (a job id replaces the editing view by the overlay, which unmounts
  the timeline and its \<open>dragging\<close> ref); the retry button belongs to the overlay.
\<close>

datatype trim_event =
    PointerDown real
  | PointerMove real
  | PointerUp
  | InputStart "real option"
  | InputEnd "real option"
  | ClickConfirm
  | SubmitSucceeded nat
  | SubmitFailed
  | ClickRetry

fun trim_step :: "trim_event \<Rightarrow> trim_editor \<Rightarrow> trim_editor" where
  "trim_step (PointerDown x) st = (if isProcessing st then st else handlePointerDown x st)"
| "trim_step (PointerMove x) st = (if isProcessing st then st else handlePointerMove x st)"
| "trim_step PointerUp st = (if isProcessing st then st else handlePointerUp st)"
| "trim_step (InputStart p) st = (if isProcessing st then st else setStartSafe (orZero p) st)"
| "trim_step (InputEnd p) st = (if isProcessing st then st else setEndSafe (orZero p) st)"
| "trim_step ClickConfirm st =
     (if confirmButton st = Rendered False then handleConfirm st else st)"
| "trim_step (SubmitSucceeded j) st =
     (if isPending st then st\<lparr>jobId := Some j, isPending := False, dragging := None\<rparr>
      else st)"
| "trim_step SubmitFailed st = (if isPending st then st\<lparr>isPending := False\<rparr> else st)"
| "trim_step ClickRetry st = (if isProcessing st then handleRetry st else st)"

fun trim_run :: "trim_event list \<Rightarrow> trim_editor \<Rightarrow> trim_editor" where
  "trim_run [] st = st"
| "trim_run (e # es) st = trim_run es (trim_step e st)"

text \<open>The range the specification asks for: inside the media, at least half a second long.\<close>

definition rangeOk :: "trim_editor \<Rightarrow> bool" where
  "rangeOk st = (0 \<le> start st \<and> end' st \<le> total st \<and> 1/2 \<le> end' st - start st)"

text \<open>The editor as it is mounted on a detected issue.\<close>

definition mountTrim :: "real option \<Rightarrow> real \<Rightarrow> real \<Rightarrow> trim_editor" where
  "mountTrim d s e =
     \<lparr>duration_seconds = d, start = s, end' = e, jobId = None, confirmed = False,
      dragging = None, isPending = False, requests = []\<rparr>"

text \<open>
  Three predicates relate the range before and after an event: it is left alone, or one
  of the two clamped updates of \<open>move\<close>, \<open>setStartSafe\<close> and \<open>setEndSafe\<close> was applied.
\<close>

definition sameRange :: "trim_editor \<Rightarrow> trim_editor \<Rightarrow> bool" where
  "sameRange st st' = (total st' = total st \<and> start st' = start st \<and> end' st' = end' st)"

definition startMoved :: "real \<Rightarrow> trim_editor \<Rightarrow> trim_editor \<Rightarrow> bool" where
  "startMoved t st st' =
     (total st' = total st \<and> start st' = clamp t 0 (fsub (end' st) (1/2)) \<and>
      end' st' = end' st)"

definition endMoved :: "real \<Rightarrow> trim_editor \<Rightarrow> trim_editor \<Rightarrow> bool" where
  "endMoved t st st' =
     (total st' = total st \<and> start st' = start st \<and>
      end' st' = clamp t (fadd (start st) (1/2)) (total st))"

text \<open>
  What the clamped updates keep, for a duration of at most \<open>2^29\<close> seconds. A handle
  that a clamped update has set has one decimal; two such handles are at least five
  tenths apart, and the end is at most a rounding step beyond the duration. The
  constants allow for the rounding of the double operations (\<open>2^-20\<close> each).
\<close>

definition rangeInv :: "trim_editor \<Rightarrow> bool" where
  "rangeInv st =
     (0 \<le> start st \<and> total st \<le> 536870912 \<and>
      9/20 - 3/1048576 \<le> end' st - start st \<and>
      (oneDecimal (end' st) \<and> real_of_int (idx (end' st)) / 10 \<le> total st + 1/20 + 5/1048576
         \<or> end' st \<le> total st) \<and>
      (oneDecimal (start st) \<or> start st + 1/2 \<le> total st) \<and>
      (oneDecimal (start st) \<and> oneDecimal (end' st) \<longrightarrow> idx (start st) + 5 \<le> idx (end' st)))"

section \<open>The scan toast (ScanToast)\<close>

datatype job_status = JPending | JRunning | JCompleted | JFailed | JCancelled

text \<open>The fields of \<open>ScanJob\<close> that the toast reads.\<close>

record ScanJob =
  job_id :: nat
  status :: job_status
  total_files :: nat
  processed_files :: nat
  issues_found :: nat
  error_message :: "string option"

datatype ToastPhase = Hidden | Running | Completed | Failed

text \<open>
  One mounted \<open>ScanToast\<close>: the state cells \<open>phase\<close> and \<open>snap\<close>, the refs \<open>dismissTimer\<close>
  and \<open>wasRunning\<close>, the \<open>isPending\<close> flag of \<open>cancelMut\<close>, and its surroundings:
  \<^item> \<open>timers\<close>: the timeouts that are set and have neither fired nor been cleared, each
    with its handle and its delay in milliseconds;
  \<^item> \<open>nextTimer\<close>: the handle the next \<open>setTimeout\<close> returns (handles are positive, so
    \<open>if (dismissTimer.current)\<close> tests for a stored handle);
  \<^item> \<open>fetching\<close>: the job ids of the \<open>api.getJob\<close> requests in flight;
  \<^item> \<open>fetched\<close>: the job ids of all \<open>api.getJob\<close> requests issued, oldest first;
  \<^item> \<open>cancelled\<close>: the job ids of all \<open>api.cancelJob\<close> requests issued;
  \<^item> \<open>invalidated\<close>: the query keys passed to \<open>qc.invalidateQueries\<close>, oldest first.
\<close>

record scan_toast =
  phase :: ToastPhase
  snap :: "ScanJob option"
  dismissTimer :: "nat option"
  wasRunning :: bool
  cancelPending :: bool
  timers :: "(nat \<times> nat) list"
  nextTimer :: nat
  fetching :: "nat list"
  fetched :: "nat list"
  cancelled :: "nat list"
  invalidated :: "string list"

definition clearTimeout :: "nat \<Rightarrow> scan_toast \<Rightarrow> scan_toast" where
  "clearTimeout h st = st\<lparr>timers := filter (\<lambda>p. fst p \<noteq> h) (timers st)\<rparr>"

definition setTimeout :: "nat \<Rightarrow> scan_toast \<Rightarrow> scan_toast" where
  "setTimeout ms st =
     st\<lparr>timers := timers st @ [(nextTimer st, ms)], nextTimer := Suc (nextTimer st)\<rparr>"

definition getJob :: "nat \<Rightarrow> scan_toast \<Rightarrow> scan_toast" where
  "getJob i st = st\<lparr>fetching := fetching st @ [i], fetched := fetched st @ [i]\<rparr>"

text \<open>
  The effect on \<open>[activeJobs]\<close>; \<open>None\<close> is the feed before its first result.
  \<^verbatim>\<open>
  useEffect(() => {
    if (!activeJobs) return;
    if (activeJobs.length > 0) {
      const job = activeJobs[0];
      if (dismissTimer.current) {
        clearTimeout(dismissTimer.current);
        dismissTimer.current = null;
      }
      setSnap(job);
      setPhase("running");
      wasRunning.current = true;
    } else if (wasRunning.current && snap) {
      wasRunning.current = false;
      // Fetch final status now that the job left the active queue
      api.getJob(snap.id).then(...).catch(() => setPhase("hidden"));
    }
  }, [activeJobs]);
  \<close>
\<close>

definition activeJobsEffect :: "ScanJob list option \<Rightarrow> scan_toast \<Rightarrow> scan_toast" where
  "activeJobsEffect activeJobs st =
     (case activeJobs of
        None \<Rightarrow> st
      | Some (job # rest) \<Rightarrow>
          (let st' = (case dismissTimer st of
                        Some h \<Rightarrow> (clearTimeout h st)\<lparr>dismissTimer := None\<rparr>
                      | None \<Rightarrow> st)
           in st'\<lparr>snap := Some job, phase := Running, wasRunning := True\<rparr>)
      | Some [] \<Rightarrow>
          (case snap st of
             Some s \<Rightarrow> if wasRunning st then getJob (job_id s) (st\<lparr>wasRunning := False\<rparr>) else st
           | None \<Rightarrow> st))"

text \<open>
  The two continuations of \<open>api.getJob(snap.id)\<close>.
  \<^verbatim>\<open>
  .then((finalJob) => {
    setSnap(finalJob);
    if (finalJob.status === "completed") {
      setPhase("completed");
      qc.invalidateQueries({ queryKey: ["stats"] });
      qc.invalidateQueries({ queryKey: ["media-list"] });
      qc.invalidateQueries({ queryKey: ["media"] });
      dismissTimer.current = setTimeout(() => setPhase("hidden"), 5000);
    } else if (finalJob.status === "failed") {
      setPhase("failed");
    } else {
      // cancelled or other terminal state
      setPhase("hidden");
    }
  }).catch(() => setPhase("hidden"));
  \<close>
\<close>

definition onFinalJob :: "ScanJob \<Rightarrow> scan_toast \<Rightarrow> scan_toast" where
  "onFinalJob finalJob st =
     (let st' = st\<lparr>snap := Some finalJob\<rparr>
      in if status finalJob = JCompleted then
           (setTimeout 5000
              (st'\<lparr>phase := Completed,
                   invalidated := invalidated st' @ [''stats'', ''media-list'', ''media'']\<rparr>))
           \<lparr>dismissTimer := Some (nextTimer st')\<rparr>
         else if status finalJob = JFailed then st'\<lparr>phase := Failed\<rparr>
         else st'\<lparr>phase := Hidden\<rparr>)"

definition onFetchError :: "scan_toast \<Rightarrow> scan_toast" where
  "onFetchError st = st\<lparr>phase := Hidden\<rparr>"

text \<open>The callback of the dismiss timer: \<open>() => setPhase("hidden")\<close>.\<close>

definition onDismissTimer :: "scan_toast \<Rightarrow> scan_toast" where
  "onDismissTimer st = st\<lparr>phase := Hidden\<rparr>"

text \<open>
  \<^verbatim>\<open>
  const dismiss = () => {
    if (dismissTimer.current) clearTimeout(dismissTimer.current);
    setPhase("hidden");
  };
  \<close>
\<close>

definition dismiss :: "scan_toast \<Rightarrow> scan_toast" where
  "dismiss st =
     (case dismissTimer st of Some h \<Rightarrow> clearTimeout h st | None \<Rightarrow> st)\<lparr>phase := Hidden\<rparr>"

text \<open>\<open>if (phase === "hidden" || !snap) return null;\<close>\<close>

definition shown :: "scan_toast \<Rightarrow> bool" where
  "shown st = (phase st \<noteq> Hidden \<and> snap st \<noteq> None)"

text \<open>
  The events of a mounted toast: a new value of the active-jobs feed, the two outcomes
  of an \<open>api.getJob\<close> in flight, a pending timeout firing, the dismiss button (shown in
  the phases completed and failed), the cancel button (shown while running, disabled
  while \<open>cancelMut\<close> is pending) and the two outcomes of \<open>api.cancelJob\<close>.
\<close>

datatype toast_event =
    FeedUpdate "ScanJob list option"
  | JobFetched ScanJob
  | JobFetchFailed nat
  | TimerFired nat
  | ClickDismiss
  | ClickCancel
  | CancelSucceeded
  | CancelFailed

fun toast_step :: "toast_event \<Rightarrow> scan_toast \<Rightarrow> scan_toast" where
  "toast_step (FeedUpdate activeJobs) st = activeJobsEffect activeJobs st"
| "toast_step (JobFetched finalJob) st =
     (if job_id finalJob \<in> set (fetching st)
      then onFinalJob finalJob (st\<lparr>fetching := remove1 (job_id finalJob) (fetching st)\<rparr>)
      else st)"
| "toast_step (JobFetchFailed i) st =
     (if i \<in> set (fetching st) then onFetchError (st\<lparr>fetching := remove1 i (fetching st)\<rparr>)
      else st)"
| "toast_step (TimerFired h) st =
     (if h \<in> fst ` set (timers st) then onDismissTimer (clearTimeout h st) else st)"
| "toast_step ClickDismiss st =
     (if shown st \<and> (phase st = Completed \<or> phase st = Failed) then dismiss st else st)"
| "toast_step ClickCancel st =
     (case snap st of
        Some s \<Rightarrow>
          if phase st = Running \<and> \<not> cancelPending st
          then st\<lparr>cancelPending := True, cancelled := cancelled st @ [job_id s]\<rparr> else st
      | None \<Rightarrow> st)"
| "toast_step CancelSucceeded st =
     (if cancelPending st
      then st\<lparr>cancelPending := False, phase := Hidden,
              invalidated := invalidated st @ [''active-jobs'']\<rparr>
      else st)"
| "toast_step CancelFailed st = (if cancelPending st then st\<lparr>cancelPending := False\<rparr> else st)"

fun toast_run :: "toast_event list \<Rightarrow> scan_toast \<Rightarrow> scan_toast" where
  "toast_run [] st = st"
| "toast_run (e # es) st = toast_run es (toast_step e st)"

text \<open>
  Mounting runs both effects on the feed value of the first render: the effect on
  \<open>[activeJobs]\<close>, then the seed effect.
  \<^verbatim>\<open>
  useEffect(() => {
    if (activeJobs && activeJobs.length > 0) {
      setSnap(activeJobs[0]);
      setPhase("running");
      wasRunning.current = true;
    }
  }, []); // intentionally only on mount
  \<close>
\<close>

definition seedEffect :: "ScanJob list option \<Rightarrow> scan_toast \<Rightarrow> scan_toast" where
  "seedEffect activeJobs st =
     (case activeJobs of
        Some (job # rest) \<Rightarrow> st\<lparr>snap := Some job, phase := Running, wasRunning := True\<rparr>
      | _ \<Rightarrow> st)"

definition initToast :: scan_toast where
  "initToast =
     \<lparr>phase = Hidden, snap = None, dismissTimer = None, wasRunning = False,
      cancelPending = False, timers = [], nextTimer = 1, fetching = [], fetched = [],
      cancelled = [], invalidated = []\<rparr>"

definition mountToast :: "ScanJob list option \<Rightarrow> scan_toast" where
  "mountToast activeJobs = seedEffect activeJobs (activeJobsEffect activeJobs initToast)"

text \<open>
  The feed as the toast last saw it: the last defined value among the mount value and
  the updates of a trace.
\<close>

fun lastFeed :: "ScanJob list option \<Rightarrow> toast_event list \<Rightarrow> ScanJob list option" where
  "lastFeed f [] = f"
| "lastFeed f (FeedUpdate (Some jobs) # es) = lastFeed (Some jobs) es"
| "lastFeed f (e # es) = lastFeed f es"

definition nonEmptyFeed :: "ScanJob list option \<Rightarrow> bool" where
  "nonEmptyFeed f = (case f of Some (job # rest) \<Rightarrow> True | _ \<Rightarrow> False)"

section \<open>The connection flow (PlexConnect)\<close>

datatype Phase =
    Loading
  | Idle
  | Starting
  | AwaitingAuth
  | PickingServer
  | Connecting
  | PickingLibraries
  | Connected

record PlexServer =
  name :: string
  machine_id :: string
  owned :: bool
  best_url :: string

text \<open>
  The calls of \<open>api\<close> the flow makes: \<open>plexAuthStart\<close>, \<open>plexAuthPoll(id)\<close>, \<open>plexServers\<close>,
  \<open>plexSelectServer({name, machine_id, url})\<close>, \<open>plexSaveLibraries(keys)\<close>, \<open>plexSync\<close>
  and \<open>plexDisconnect\<close>.
\<close>

datatype plex_call =
    AuthStart
  | AuthPoll nat
  | Servers
  | SelectServer string string string
  | SaveLibraries "string list"
  | Sync
  | Disconnect

fun isSave :: "plex_call \<Rightarrow> bool" where
  "isSave (SaveLibraries keys) = True"
| "isSave c = False"

text \<open>
  One mounted \<open>PlexConnect\<close>: its five state cells (the phase is \<open>phase'\<close> here, the toast
  has a \<open>phase\<close> too), the ref \<open>pollRef\<close>, and its surroundings:
  \<^item> \<open>intervals\<close>: the intervals that are set and not cleared, each with its handle, its
    period in milliseconds and the pin id its callback polls;
  \<^item> \<open>nextInterval\<close>: the handle the next \<open>setInterval\<close> returns (handles are positive);
  \<^item> \<open>calls\<close>: all calls of \<open>api\<close> issued, oldest first;
  \<^item> \<open>pending\<close>: the calls still in flight;
  \<^item> \<open>invalidations\<close>: the query keys passed to \<open>qc.invalidateQueries\<close>;
  \<^item> \<open>notified\<close>: how often \<open>onConnected\<close> was called.
\<close>

record plex_connect =
  phase' :: Phase
  pinCode :: string
  authUrl :: string
  servers :: "PlexServer list"
  error :: "string option"
  pollRef :: "nat option"
  intervals :: "(nat \<times> nat \<times> nat) list"
  nextInterval :: nat
  calls :: "plex_call list"
  pending :: "plex_call list"
  invalidations :: "string list"
  notified :: nat

definition call :: "plex_call \<Rightarrow> plex_connect \<Rightarrow> plex_connect" where
  "call c st = st\<lparr>calls := calls st @ [c], pending := pending st @ [c]\<rparr>"

definition settle :: "plex_call \<Rightarrow> plex_connect \<Rightarrow> plex_connect" where
  "settle c st = st\<lparr>pending := remove1 c (pending st)\<rparr>"

definition invalidate :: "string \<Rightarrow> plex_connect \<Rightarrow> plex_connect" where
  "invalidate key st = st\<lparr>invalidations := invalidations st @ [key]\<rparr>"

text \<open>
  \<^verbatim>\<open>
  useEffect(() => {
    if (!status) return;
    if (status.connected) {
      if (phase === "loading") {
        setPhase("connected");
      }
    } else if (phase === "loading") {
      setPhase("idle");
    }
  }, [status]);
  \<close>
  The argument is \<open>status.connected\<close> of a loaded status.
\<close>

definition statusEffect :: "bool \<Rightarrow> plex_connect \<Rightarrow> plex_connect" where
  "statusEffect isConnected st =
     (if isConnected then (if phase' st = Loading then st\<lparr>phase' := Connected\<rparr> else st)
      else if phase' st = Loading then st\<lparr>phase' := Idle\<rparr>
      else st)"

text \<open>
  \<^verbatim>\<open>
  const stopPolling = () => {
    if (pollRef.current) {
      clearInterval(pollRef.current);
      pollRef.current = null;
    }
  };
  const startPolling = (id: number) => {
    stopPolling();
    pollRef.current = setInterval(async () => { ... }, 2000);
  };
  \<close>
\<close>

definition stopPolling :: "plex_connect \<Rightarrow> plex_connect" where
  "stopPolling st =
     (case pollRef st of
        Some h \<Rightarrow> st\<lparr>intervals := filter (\<lambda>p. fst p \<noteq> h) (intervals st), pollRef := None\<rparr>
      | None \<Rightarrow> st)"

definition startPolling :: "nat \<Rightarrow> plex_connect \<Rightarrow> plex_connect" where
  "startPolling i st =
     (let st' = stopPolling st
      in st'\<lparr>intervals := intervals st' @ [(nextInterval st', 2000, i)],
             pollRef := Some (nextInterval st'),
             nextInterval := Suc (nextInterval st')\<rparr>)"

text \<open>
  The callback of the interval, in its two parts: up to the first \<open>await\<close>, and from the
  answer of \<open>api.plexAuthPoll(id)\<close> to the second \<open>await\<close>. A rejected poll or a rejected
  \<open>api.plexServers()\<close> ends in the empty \<open>catch\<close>.
  \<^verbatim>\<open>
  async () => {
    try {
      const res = await api.plexAuthPoll(id);
      if (res.authenticated) {
        stopPolling();
        // Fetch servers to pick from
        setPhase("picking_server");
        const srvList = await api.plexServers();
        setServers(srvList);
        qc.invalidateQueries({ queryKey: ["plex-status"] });
      }
    } catch {
      // Network blip - keep polling
    }
  }
  \<close>
\<close>

definition onTick :: "nat \<Rightarrow> plex_connect \<Rightarrow> plex_connect" where
  "onTick i st = call (AuthPoll i) st"

definition onPollResult :: "bool \<Rightarrow> plex_connect \<Rightarrow> plex_connect" where
  "onPollResult authenticated st =
     (if authenticated then call Servers ((stopPolling st)\<lparr>phase' := PickingServer\<rparr>) else st)"

definition onServers :: "PlexServer list \<Rightarrow> plex_connect \<Rightarrow> plex_connect" where
  "onServers srvList st = invalidate ''plex-status'' (st\<lparr>servers := srvList\<rparr>)"

text \<open>
  \<^verbatim>\<open>
  const startAuthMut = useMutation({
    mutationFn: api.plexAuthStart,
    onMutate: () => { setPhase("starting"); setError(null); },
    onSuccess: (data) => {
      setPinCode(data.pin_code);
      setAuthUrl(data.auth_url);
      setPhase("awaiting_auth");
      startPolling(data.pin_id);
    },
    onError: (e: Error) => { setError(e.message); setPhase("idle"); },
  });
  \<close>
\<close>

definition startAuth_mutate :: "plex_connect \<Rightarrow> plex_connect" where
  "startAuth_mutate st = call AuthStart (st\<lparr>phase' := Starting, error := None\<rparr>)"

definition startAuth_onSuccess :: "nat \<Rightarrow> string \<Rightarrow> string \<Rightarrow> plex_connect \<Rightarrow> plex_connect" where
  "startAuth_onSuccess pin_id pin_code auth_url st =
     startPolling pin_id (st\<lparr>pinCode := pin_code, authUrl := auth_url, phase' := AwaitingAuth\<rparr>)"

definition startAuth_onError :: "string \<Rightarrow> plex_connect \<Rightarrow> plex_connect" where
  "startAuth_onError message st = st\<lparr>error := Some message, phase' := Idle\<rparr>"

text \<open>
  \<^verbatim>\<open>
  const selectServerMut = useMutation({
    mutationFn: (s: PlexServer) =>
      api.plexSelectServer({ name: s.name, machine_id: s.machine_id, url: s.best_url }),
    onMutate: () => { setPhase("connecting"); setError(null); },
    onSuccess: () => {
      qc.invalidateQueries({ queryKey: ["plex-status"] });
      setPhase("picking_libraries");
    },
    onError: (e: Error) => { setError(e.message); setPhase("picking_server"); },
  });
  \<close>
\<close>

definition selectCall :: "PlexServer \<Rightarrow> plex_call" where
  "selectCall s = SelectServer (name s) (machine_id s) (best_url s)"

definition selectServer_mutate :: "PlexServer \<Rightarrow> plex_connect \<Rightarrow> plex_connect" where
  "selectServer_mutate s st = call (selectCall s) (st\<lparr>phase' := Connecting, error := None\<rparr>)"

definition selectServer_onSuccess :: "plex_connect \<Rightarrow> plex_connect" where
  "selectServer_onSuccess st = (invalidate ''plex-status'' st)\<lparr>phase' := PickingLibraries\<rparr>"

definition selectServer_onError :: "string \<Rightarrow> plex_connect \<Rightarrow> plex_connect" where
  "selectServer_onError message st = st\<lparr>error := Some message, phase' := PickingServer\<rparr>"

text \<open>
  \<^verbatim>\<open>
  const disconnectMut = useMutation({
    mutationFn: api.plexDisconnect,
    onSuccess: () => {
      qc.invalidateQueries({ queryKey: ["plex-status"] });
      qc.invalidateQueries({ queryKey: ["stats"] });
      qc.invalidateQueries({ queryKey: ["media-list"] });
      setPhase("idle");
      setError(null);
    },
  });
  const saveLibrariesMut = useMutation({
    mutationFn: (keys: string[]) => api.plexSaveLibraries(keys),
    onSuccess: () => {
      qc.invalidateQueries({ queryKey: ["plex-status"] });
      setPhase("connected");
      api.plexSync().catch(() => {});
      onConnected?.();
    },
    onError: (e: Error) => { setError(e.message); },
  });
  \<close>
\<close>

definition disconnect_onSuccess :: "plex_connect \<Rightarrow> plex_connect" where
  "disconnect_onSuccess st =
     (invalidate ''media-list'' (invalidate ''stats'' (invalidate ''plex-status'' st)))
     \<lparr>phase' := Idle, error := None\<rparr>"

definition saveLibraries_onSuccess :: "plex_connect \<Rightarrow> plex_connect" where
  "saveLibraries_onSuccess st =
     (call Sync ((invalidate ''plex-status'' st)\<lparr>phase' := Connected\<rparr>))
     \<lparr>notified := Suc (notified st)\<rparr>"

definition saveLibraries_onError :: "string \<Rightarrow> plex_connect \<Rightarrow> plex_connect" where
  "saveLibraries_onError message st = st\<lparr>error := Some message\<rparr>"

text \<open>
  \<^verbatim>\<open>
  const cancel = () => {
    stopPolling();
    setPhase("idle");
    setPinCode("");
    setError(null);
  };
  \<close>
\<close>

definition cancel :: "plex_connect \<Rightarrow> plex_connect" where
  "cancel st = (stopPolling st)\<lparr>phase' := Idle, pinCode := [], error := None\<rparr>"

text \<open>
  The events of a mounted flow. A button can be clicked in the phases that render it:
  connect in \<open>idle\<close>; cancel in \<open>awaiting_auth\<close> and \<open>picking_server\<close>; the server picker
  in \<open>picking_server\<close>, on one of the listed servers; the library picker in
  \<open>picking_libraries\<close>, with a selection that is not empty and no save pending;
  disconnect and change-libraries in \<open>connected\<close>. \<open>Tick h\<close> is the interval with handle
  \<open>h\<close> firing. An answer arrives only for a call in flight. \<open>Unmount\<close> runs the cleanup
  \<open>stopPolling()\<close>. The sync button of the connected view only invalidates the status
  query and is left out.
\<close>

datatype plex_event =
    StatusLoaded bool
  | ClickConnect
  | AuthStartOk nat string string
  | AuthStartErr string
  | Tick nat
  | PollOk nat bool
  | PollErr nat
  | ServersOk "PlexServer list"
  | ServersErr
  | ClickCancelFlow
  | ClickSelect PlexServer
  | SelectOk PlexServer
  | SelectErr PlexServer string
  | ClickSave "string list"
  | SaveOk "string list"
  | SaveErr "string list" string
  | ClickChangeLibraries
  | ClickDisconnect
  | DisconnectOk
  | DisconnectErr
  | SyncSettled
  | Unmount

fun plex_step :: "plex_event \<Rightarrow> plex_connect \<Rightarrow> plex_connect" where
  "plex_step (StatusLoaded isConnected) st = statusEffect isConnected st"
| "plex_step ClickConnect st = (if phase' st = Idle then startAuth_mutate st else st)"
| "plex_step (AuthStartOk pin_id pin_code auth_url) st =
     (if AuthStart \<in> set (pending st)
      then startAuth_onSuccess pin_id pin_code auth_url (settle AuthStart st) else st)"
| "plex_step (AuthStartErr message) st =
     (if AuthStart \<in> set (pending st) then startAuth_onError message (settle AuthStart st)
      else st)"
| "plex_step (Tick h) st =
     (case filter (\<lambda>p. fst p = h) (intervals st) of
        [] \<Rightarrow> st
      | (_, _, i) # _ \<Rightarrow> onTick i st)"
| "plex_step (PollOk i authenticated) st =
     (if AuthPoll i \<in> set (pending st) then onPollResult authenticated (settle (AuthPoll i) st)
      else st)"
| "plex_step (PollErr i) st =
     (if AuthPoll i \<in> set (pending st) then settle (AuthPoll i) st else st)"
| "plex_step (ServersOk srvList) st =
     (if Servers \<in> set (pending st) then onServers srvList (settle Servers st) else st)"
| "plex_step ServersErr st = (if Servers \<in> set (pending st) then settle Servers st else st)"
| "plex_step ClickCancelFlow st =
     (if phase' st = AwaitingAuth \<or> phase' st = PickingServer then cancel st else st)"
| "plex_step (ClickSelect s) st =
     (if phase' st = PickingServer \<and> s \<in> set (servers st) then selectServer_mutate s st
      else st)"
| "plex_step (SelectOk s) st =
     (if selectCall s \<in> set (pending st) then selectServer_onSuccess (settle (selectCall s) st)
      else st)"
| "plex_step (SelectErr s message) st =
     (if selectCall s \<in> set (pending st)
      then selectServer_onError message (settle (selectCall s) st) else st)"
| "plex_step (ClickSave keys) st =
     (if phase' st = PickingLibraries \<and> keys \<noteq> [] \<and> filter isSave (pending st) = []
      then call (SaveLibraries keys) st else st)"
| "plex_step (SaveOk keys) st =
     (if SaveLibraries keys \<in> set (pending st)
      then saveLibraries_onSuccess (settle (SaveLibraries keys) st) else st)"
| "plex_step (SaveErr keys message) st =
     (if SaveLibraries keys \<in> set (pending st)
      then saveLibraries_onError message (settle (SaveLibraries keys) st) else st)"
| "plex_step ClickChangeLibraries st =
     (if phase' st = Connected then st\<lparr>phase' := PickingLibraries\<rparr> else st)"
| "plex_step ClickDisconnect st = (if phase' st = Connected then call Disconnect st else st)"
| "plex_step DisconnectOk st =
     (if Disconnect \<in> set (pending st) then disconnect_onSuccess (settle Disconnect st) else st)"
| "plex_step DisconnectErr st =
     (if Disconnect \<in> set (pending st) then settle Disconnect st else st)"
| "plex_step SyncSettled st = (if Sync \<in> set (pending st) then settle Sync st else st)"
| "plex_step Unmount st = stopPolling st"

fun plex_run :: "plex_event list \<Rightarrow> plex_connect \<Rightarrow> plex_connect" where
  "plex_run [] st = st"
| "plex_run (e # es) st = plex_run es (plex_step e st)"

definition initPlex :: plex_connect where
  "initPlex =
     \<lparr>phase' = Loading, pinCode = [], authUrl = [], servers = [], error = None,
      pollRef = None, intervals = [], nextInterval = 1, calls = [], pending = [],
      invalidations = [], notified = 0\<rparr>"

text \<open>
  While the flow waits for the authorization, three things happen: the interval fires,
  a poll answers "not authenticated", a poll is rejected.
\<close>

fun waiting :: "plex_event \<Rightarrow> bool" where
  "waiting (Tick h) = True"
| "waiting (PollOk i authenticated) = (\<not> authenticated)"
| "waiting (PollErr i) = True"
| "waiting e = False"

text \<open>At most the interval that \<open>pollRef\<close> holds is set, and it has the period 2000.\<close>

definition pollInv :: "plex_connect \<Rightarrow> bool" where
  "pollInv st =
     (map fst (intervals st) = (case pollRef st of None \<Rightarrow> [] | Some h \<Rightarrow> [h]) \<and>
      list_all (\<lambda>p. fst (snd p) = 2000) (intervals st))"

section \<open>Histories and sample data\<close>

text \<open>The toast after mounting on the feed value \<open>f0\<close> and the events \<open>es\<close>.\<close>

definition toastAfter :: "ScanJob list option \<Rightarrow> toast_event list \<Rightarrow> scan_toast" where
  "toastAfter f0 es = toast_run es (mountToast f0)"

text \<open>
  What \<open>wasRunning\<close> records: whether the feed the toast saw last had an active job;
  and then the toast has a snapshot.
\<close>

definition feedInv :: "ScanJob list option \<Rightarrow> scan_toast \<Rightarrow> bool" where
  "feedInv f st = (wasRunning st = nonEmptyFeed f \<and> (wasRunning st \<longrightarrow> snap st \<noteq> None))"

text \<open>Three scan jobs, as the active-jobs feed lists them while they run.\<close>

definition job1 :: ScanJob where
  "job1 = \<lparr>job_id = 1, status = JRunning, total_files = 10, processed_files = 5,
           issues_found = 2, error_message = None\<rparr>"

definition job2 :: ScanJob where
  "job2 = \<lparr>job_id = 2, status = JRunning, total_files = 4, processed_files = 0,
           issues_found = 0, error_message = None\<rparr>"

definition job3 :: ScanJob where
  "job3 = \<lparr>job_id = 3, status = JRunning, total_files = 8, processed_files = 0,
           issues_found = 0, error_message = None\<rparr>"

text \<open>
  Two scans end one after the other while the follow-up fetch of the first is still in
  flight; both fetches then answer "completed", and a third scan starts.
\<close>

definition staleTimerTrace :: "toast_event list" where
  "staleTimerTrace =
     [FeedUpdate (Some [job1]), FeedUpdate (Some []),
      FeedUpdate (Some [job2]), FeedUpdate (Some []),
      JobFetched (job1\<lparr>status := JCompleted\<rparr>),
      JobFetched (job2\<lparr>status := JCompleted\<rparr>),
      FeedUpdate (Some [job3])]"

text \<open>
  The events that leave the snapshot and \<open>wasRunning\<close> alone: everything but a defined
  feed value and the answer of a follow-up fetch.
\<close>

fun keepsSnapshot :: "toast_event \<Rightarrow> bool" where
  "keepsSnapshot (FeedUpdate activeJobs) = (activeJobs = None)"
| "keepsSnapshot (JobFetched finalJob) = False"
| "keepsSnapshot e = True"

text \<open>
  The follow-up fetch of the first scan answers late, after the second scan has
  appeared in the feed.
\<close>

definition lateAnswerTrace :: "toast_event list" where
  "lateAnswerTrace =
     [FeedUpdate (Some [job1]), FeedUpdate (Some []), FeedUpdate (Some [job2]),
      JobFetched (job1\<lparr>status := JCompleted\<rparr>)]"

text \<open>The connection flow after mounting and the events \<open>es\<close>.\<close>

definition plexAfter :: "plex_event list \<Rightarrow> plex_connect" where
  "plexAfter es = plex_run es initPlex"

fun isPoll :: "plex_call \<Rightarrow> bool" where
  "isPoll (AuthPoll i) = True"
| "isPoll c = False"

fun isSelect :: "plex_call \<Rightarrow> bool" where
  "isSelect (SelectServer n m u) = True"
| "isSelect c = False"

text \<open>The event that starts an authorization poll.\<close>

fun startsFlow :: "plex_event \<Rightarrow> bool" where
  "startsFlow (AuthStartOk pin_id pin_code auth_url) = True"
| "startsFlow e = False"

text \<open>
  The scenario of the specification: two polls answer "not authenticated", a third is
  in flight.
\<close>

definition authScenario :: "plex_event list" where
  "authScenario = [Tick 1, PollOk 7 False, Tick 1, PollOk 7 False, Tick 1]"

text \<open>A user starts the authorization; the interval fires once, its poll is in flight.\<close>

definition cancelRace :: "plex_event list" where
  "cancelRace =
     [StatusLoaded False, ClickConnect, AuthStartOk 7 ''ABCD'' ''https://plex.tv/link'',
      Tick 1]"

text \<open>
  A poll takes longer than the two seconds of the interval: the second poll is sent
  before the first is answered, and the first answer is "authenticated".
\<close>

definition overlapTrace :: "plex_event list" where
  "overlapTrace =
     [StatusLoaded False, ClickConnect, AuthStartOk 7 ''ABCD'' ''https://plex.tv/link'',
      Tick 1, Tick 1, PollOk 7 True]"

definition someServer :: PlexServer where
  "someServer = \<lparr>name = ''den'', machine_id = ''m1'', owned = True,
                 best_url = ''http://10.0.0.2:32400''\<rparr>"

section \<open>Properties of the number model\<close>

lemma expo_bounds:
  assumes "0 < a"
  shows "2 powi (expo a) \<le> a \<and> a < 2 powi (expo a + 1)"
proof (cases "1 \<le> a")
  case True
  let ?n = "\<lfloor>a\<rfloor>"
  from True have n: "0 < ?n" by linarith
  from bitlen_bounds [OF n] have lo: "2 ^ nat (bitlen ?n - 1) \<le> ?n" and hi: "?n < 2 ^ nat (bitlen ?n)"
    by simp_all
  from n have b: "1 \<le> bitlen ?n" by (auto simp: bitlen_alt_def)
  have e: "expo a = bitlen ?n - 1" using True by (simp add: expo_def)
  have "(2::real) powi (bitlen ?n - 1) = 2 ^ nat (bitlen ?n - 1)"
    using b by (simp add: power_int_def)
  also have "\<dots> = real_of_int (2 ^ nat (bitlen ?n - 1))" by simp
  also have "\<dots> \<le> real_of_int ?n" using lo by (simp only: of_int_le_iff)
  also have "\<dots> \<le> a" by simp
  finally have 1: "2 powi (expo a) \<le> a" by (simp add: e)
  from hi have "?n + 1 \<le> 2 ^ nat (bitlen ?n)" by simp
  then have "real_of_int (?n + 1) \<le> real_of_int (2 ^ nat (bitlen ?n))" by (simp only: of_int_le_iff)
  moreover have "a < real_of_int (?n + 1)" by linarith
  ultimately have "a < real_of_int (2 ^ nat (bitlen ?n))" by linarith
  also have "\<dots> = 2 powi (bitlen ?n)" using b by (simp add: power_int_def)
  finally have 2: "a < 2 powi (expo a + 1)" by (simp add: e)
  from 1 2 show ?thesis ..
next
  case False
  let ?y = "1 / a"
  let ?m = "\<lceil>?y\<rceil> - 1"
  let ?c = "bitlen ?m"
  from False assms have y: "1 < ?y" by simp
  then have m: "0 < ?m" by linarith
  from bitlen_bounds [OF m] have lo: "2 ^ nat (?c - 1) \<le> ?m" and hi: "?m < 2 ^ nat ?c"
    by simp_all
  from m have c: "1 \<le> ?c" by (auto simp: bitlen_alt_def)
  have e: "expo a = - ?c" using False by (simp add: expo_def)
  have p: "0 < (2::real) ^ nat ?c" "0 < (2::real) ^ nat (?c - 1)" by simp_all
  from hi have "?m + 1 \<le> 2 ^ nat ?c" by simp
  then have "real_of_int (?m + 1) \<le> real_of_int (2 ^ nat ?c)" by (simp only: of_int_le_iff)
  then have "real_of_int (?m + 1) \<le> 2 ^ nat ?c" by (simp only: of_int_power of_int_numeral)
  moreover have "?y \<le> real_of_int (?m + 1)" by linarith
  ultimately have "?y \<le> 2 ^ nat ?c" by (rule order_trans [rotated])
  with assms p have "1 \<le> a * 2 ^ nat ?c" by (simp add: field_simps)
  with p have "1 / 2 ^ nat ?c \<le> a" by (simp add: field_simps)
  moreover have "(2::real) powi (- ?c) = 1 / 2 ^ nat ?c"
    using c by (simp add: power_int_def field_simps)
  ultimately have 1: "2 powi (expo a) \<le> a" by (simp add: e)
  from lo have "real_of_int (2 ^ nat (?c - 1)) \<le> real_of_int ?m" by (simp only: of_int_le_iff)
  then have "2 ^ nat (?c - 1) \<le> real_of_int ?m" by (simp only: of_int_power of_int_numeral)
  moreover have "real_of_int ?m < ?y" by linarith
  ultimately have "2 ^ nat (?c - 1) < ?y" by (rule le_less_trans)
  with assms p have "a * 2 ^ nat (?c - 1) < 1" by (simp add: field_simps)
  with p have "a < 1 / 2 ^ nat (?c - 1)" by (simp add: field_simps)
  moreover have "(2::real) powi (- ?c + 1) = 1 / 2 ^ nat (?c - 1)"
  proof (cases "?c = 1")
    case True
    then show ?thesis by simp
  next
    case False
    with c have "- ?c + 1 < 0" by simp
    then have "(2::real) powi (- ?c + 1) = inverse 2 ^ nat (?c - 1)"
      by (simp add: power_int_def)
    then show ?thesis by (simp add: field_simps)
  qed
  ultimately have 2: "a < 2 powi (expo a + 1)" by (simp add: e)
  from 1 2 show ?thesis ..
qed

lemma roundEven_bounds: "real_of_int (roundEven y) \<le> y + 1/2 \<and> y - 1/2 \<le> real_of_int (roundEven y)"
  unfolding roundEven_def Let_def by (auto; linarith)

lemma roundEven_nonneg: "0 \<le> y \<Longrightarrow> 0 \<le> roundEven y"
  unfolding roundEven_def Let_def by (auto; linarith)

lemma dbl_nonneg: "0 \<le> x \<Longrightarrow> 0 \<le> dbl x"
  by (simp add: dbl_def Let_def roundEven_nonneg)

lemma dbl_error:
  "\<bar>dbl x - x\<bar> \<le> 2 powi (expo \<bar>x\<bar> - 53)"
proof (cases "x = 0")
  case True
  then show ?thesis by (simp add: dbl_def)
next
  case False
  let ?u = "(2::real) powi (expo \<bar>x\<bar> - 52)"
  let ?r = "real_of_int (roundEven (\<bar>x\<bar> / ?u))"
  have u: "0 < ?u" by simp
  have half: "(2::real) powi (expo \<bar>x\<bar> - 53) = ?u / 2"
    using power_int_diff [of "2::real" "expo \<bar>x\<bar> - 52" 1] by simp
  from roundEven_bounds [of "\<bar>x\<bar> / ?u"]
  have "\<bar>?r - \<bar>x\<bar> / ?u\<bar> \<le> 1/2" by linarith
  then have "\<bar>?r - \<bar>x\<bar> / ?u\<bar> * ?u \<le> 1/2 * ?u"
    using u by (intro mult_right_mono) simp_all
  moreover have "\<bar>?r - \<bar>x\<bar> / ?u\<bar> * ?u = \<bar>?r * ?u - \<bar>x\<bar>\<bar>"
  proof -
    have "\<bar>?r - \<bar>x\<bar> / ?u\<bar> * ?u = \<bar>(?r - \<bar>x\<bar> / ?u) * ?u\<bar>"
      using u by (simp add: abs_mult)
    also have "(?r - \<bar>x\<bar> / ?u) * ?u = ?r * ?u - \<bar>x\<bar>"
      using u by (simp add: field_simps)
    finally show ?thesis .
  qed
  ultimately have d: "\<bar>?r * ?u - \<bar>x\<bar>\<bar> \<le> ?u / 2" by simp
  have "dbl x = sgn x * (?r * ?u)" using False by (simp add: dbl_def Let_def)
  moreover have "x = sgn x * \<bar>x\<bar>" by (simp add: sgn_mult_abs)
  ultimately have "dbl x - x = sgn x * (?r * ?u - \<bar>x\<bar>)"
    by (metis right_diff_distrib)
  then have "\<bar>dbl x - x\<bar> = \<bar>?r * ?u - \<bar>x\<bar>\<bar>"
    using False by (simp add: abs_mult abs_sgn_eq)
  with d half show ?thesis by simp
qed

text \<open>Below \<open>2^33\<close> a double is within \<open>2^-20\<close> of the real it rounds.\<close>

lemma dbl_close:
  assumes "\<bar>x\<bar> \<le> 8589934592"
  shows "\<bar>dbl x - x\<bar> \<le> 1 / 1048576"
proof (cases "x = 0")
  case True
  then show ?thesis by (simp add: dbl_def)
next
  case False
  then have "0 < \<bar>x\<bar>" by simp
  from expo_bounds [OF this] have "2 powi (expo \<bar>x\<bar>) \<le> \<bar>x\<bar>" ..
  with assms have "(2::real) powi (expo \<bar>x\<bar>) \<le> 2 powi 33" by simp
  then have "expo \<bar>x\<bar> \<le> 33" by (rule power_int_le_imp_le_exp [rotated]) simp_all
  then have "(2::real) powi (expo \<bar>x\<bar> - 53) \<le> 2 powi (-20)"
    by (intro power_int_increasing) simp_all
  also have "(2::real) powi (-20) = 1 / 1048576" by (simp add: power_int_minus_divide)
  finally show ?thesis using dbl_error [of x] by linarith
qed

section \<open>Properties of the trim editor\<close>

subsection \<open>Clamping\<close>

text \<open>
  What \<open>clamp\<close> returns, for a clamped value \<open>x\<close> between 0 and \<open>2^29 + 2\<close>: the double
  of \<open>k/10\<close>, where the integer \<open>k\<close> is within a half (and a rounding error) of \<open>10 x\<close>.
\<close>

lemma clamp_spec:
  assumes "0 \<le> max mn (min mx v)" and "max mn (min mx v) \<le> 536870914"
  shows "\<exists>k::int. clamp v mn mx = dbl (real_of_int k / 10) \<and> idx (clamp v mn mx) = k
           \<and> \<bar>clamp v mn mx - real_of_int k / 10\<bar> \<le> 1/1048576
           \<and> max mn (min mx v) * 10 - 1/2 - 1/1048576 < real_of_int k
           \<and> real_of_int k \<le> max mn (min mx v) * 10 + 1/2 + 1/1048576
           \<and> 0 \<le> k"
proof -
  define x where "x = max mn (min mx v)"
  define y where "y = dbl (x * 10)"
  define k where "k = js_round y"
  have c: "clamp v mn mx = dbl (real_of_int k / 10)"
    by (simp add: clamp_def fdiv_def fmul_def k_def y_def x_def)
  from assms have x: "0 \<le> x" "x \<le> 536870914" by (simp_all add: x_def)
  then have "\<bar>x * 10\<bar> \<le> 8589934592" by linarith
  then have y: "\<bar>y - x * 10\<bar> \<le> 1/1048576" unfolding y_def by (rule dbl_close)
  have k1: "y - 1/2 < real_of_int k" and k2: "real_of_int k \<le> y + 1/2"
    unfolding k_def js_round_def by linarith+
  from x have "0 \<le> y" unfolding y_def by (intro dbl_nonneg) simp
  then have k0: "0 \<le> k" unfolding k_def js_round_def by linarith
  from k0 k2 y x have "\<bar>real_of_int k / 10\<bar> \<le> 8589934592" by linarith
  then have r: "\<bar>dbl (real_of_int k / 10) - real_of_int k / 10\<bar> \<le> 1/1048576"
    by (rule dbl_close)
  have i: "idx (dbl (real_of_int k / 10)) = k"
    unfolding idx_def using r by linarith
  have "clamp v mn mx = dbl (real_of_int k / 10) \<and> idx (clamp v mn mx) = k
           \<and> \<bar>clamp v mn mx - real_of_int k / 10\<bar> \<le> 1/1048576
           \<and> x * 10 - 1/2 - 1/1048576 < real_of_int k
           \<and> real_of_int k \<le> x * 10 + 1/2 + 1/1048576
           \<and> 0 \<le> k"
    unfolding c using i r k0 k1 k2 y by (intro conjI) linarith+
  then show ?thesis unfolding x_def by (rule exI)
qed

lemma clamp_oneDecimal:
  assumes "0 \<le> max mn (min mx v)" and "max mn (min mx v) \<le> 536870914"
  shows "oneDecimal (clamp v mn mx)"
  using clamp_spec [OF assms] by (auto simp: oneDecimal_def)

lemma clamp_nonneg:
  assumes "0 \<le> max mn (min mx v)"
  shows "0 \<le> clamp v mn mx"
proof -
  from assms have "0 \<le> dbl (max mn (min mx v) * 10)" by (intro dbl_nonneg) simp
  then have "0 \<le> js_round (dbl (max mn (min mx v) * 10))" unfolding js_round_def by linarith
  then show ?thesis by (simp add: clamp_def fdiv_def fmul_def dbl_nonneg)
qed

text \<open>A one-decimal value of moderate size is within \<open>2^-20\<close> of its tenth.\<close>

lemma oneDecimal_close:
  assumes "oneDecimal y" and "\<bar>y\<bar> \<le> 536870914"
  shows "\<bar>y - real_of_int (idx y) / 10\<bar> \<le> 1/1048576"
proof -
  have "\<bar>real_of_int (idx y)\<bar> \<le> \<bar>y\<bar> * 10 + 1" unfolding idx_def by linarith
  with assms(2) have "\<bar>real_of_int (idx y) / 10\<bar> \<le> 8589934592" by simp
  then have "\<bar>dbl (real_of_int (idx y) / 10) - real_of_int (idx y) / 10\<bar> \<le> 1/1048576"
    by (rule dbl_close)
  with assms(1) show ?thesis by (simp add: oneDecimal_def)
qed

lemma fadd_close: "\<bar>a + b\<bar> \<le> 8589934592 \<Longrightarrow> \<bar>fadd a b - (a + b)\<bar> \<le> 1/1048576"
  unfolding fadd_def by (rule dbl_close)

lemma fsub_close: "\<bar>a - b\<bar> \<le> 8589934592 \<Longrightarrow> \<bar>fsub a b - (a - b)\<bar> \<le> 1/1048576"
  unfolding fsub_def by (rule dbl_close)

subsection \<open>The range\<close>

lemma int_ge5: "real_of_int K + 5 - 1 < real_of_int k \<Longrightarrow> K + 5 \<le> k"
  by linarith

lemma int_le5: "real_of_int k < real_of_int K + 5 + 1 \<Longrightarrow> k \<le> K + 5"
  by linarith

lemma rangeInv_bounds:
  assumes "rangeInv st"
  shows "0 \<le> end' st" and "end' st \<le> total st + 1/20 + 6/1048576"
    and "start st \<le> total st" and "end' st \<le> 536870913"
proof -
  from assms have s: "0 \<le> start st" and t: "total st \<le> 536870912"
    and g: "9/20 - 3/1048576 \<le> end' st - start st"
    and e: "oneDecimal (end' st) \<and> real_of_int (idx (end' st)) / 10 \<le> total st + 1/20 + 5/1048576
         \<or> end' st \<le> total st"
    by (simp_all add: rangeInv_def)
  from s g show e0: "0 \<le> end' st" by linarith
  show e1: "end' st \<le> total st + 1/20 + 6/1048576"
  proof (cases "end' st \<le> total st")
    case True
    then show ?thesis by linarith
  next
    case False
    with e have o: "oneDecimal (end' st)"
      and b: "real_of_int (idx (end' st)) / 10 \<le> total st + 1/20 + 5/1048576" by blast+
    from e0 have "0 \<le> real_of_int (idx (end' st))" unfolding idx_def by simp
    with b t have "\<bar>real_of_int (idx (end' st)) / 10\<bar> \<le> 8589934592" by linarith
    then have "\<bar>dbl (real_of_int (idx (end' st)) / 10) - real_of_int (idx (end' st)) / 10\<bar>
        \<le> 1/1048576"
      by (rule dbl_close)
    with o have "\<bar>end' st - real_of_int (idx (end' st)) / 10\<bar> \<le> 1/1048576"
      by (simp add: oneDecimal_def)
    with b show ?thesis by linarith
  qed
  from e1 g show "start st \<le> total st" by linarith
  from e1 t show "end' st \<le> 536870913" by linarith
qed

lemma rangeInv_end:
  assumes inv: "rangeInv st" and mv: "endMoved t st st'"
  shows "rangeInv st'"
proof -
  define lo where "lo = fadd (start st) (1/2)"
  define x where "x = max lo (min (total st) t)"
  from mv have eqs: "total st' = total st" "start st' = start st"
      "end' st' = clamp t lo (total st)"
    by (simp_all add: endMoved_def lo_def)
  from inv have s: "0 \<le> start st" and tb: "total st \<le> 536870912"
    and g: "9/20 - 3/1048576 \<le> end' st - start st"
    and e: "oneDecimal (end' st) \<and> real_of_int (idx (end' st)) / 10 \<le> total st + 1/20 + 5/1048576
         \<or> end' st \<le> total st"
    and so: "oneDecimal (start st) \<or> start st + 1/2 \<le> total st"
    and both: "oneDecimal (start st) \<and> oneDecimal (end' st) \<longrightarrow> idx (start st) + 5 \<le> idx (end' st)"
    by (simp_all add: rangeInv_def)
  note b = rangeInv_bounds [OF inv]
  from s b(3) tb have "\<bar>start st + 1/2\<bar> \<le> 8589934592" by linarith
  then have lo: "\<bar>lo - (start st + 1/2)\<bar> \<le> 1/1048576" unfolding lo_def by (rule fadd_close)
  have xlo: "lo \<le> x" by (simp add: x_def)
  from lo s have x0: "0 \<le> x" using xlo by linarith
  have "x \<le> max lo (total st)" by (simp add: x_def)
  with lo b(3) tb have x1: "x \<le> 536870914" by linarith
  from clamp_spec [of lo "total st" t] x0 x1
  obtain k :: int where c: "clamp t lo (total st) = dbl (real_of_int k / 10)"
    and i: "idx (clamp t lo (total st)) = k"
    and r: "\<bar>clamp t lo (total st) - real_of_int k / 10\<bar> \<le> 1/1048576"
    and k1: "x * 10 - 1/2 - 1/1048576 < real_of_int k"
    and k2: "real_of_int k \<le> x * 10 + 1/2 + 1/1048576"
    unfolding x_def by blast
  have od: "oneDecimal (clamp t lo (total st))"
    using c i by (simp add: oneDecimal_def)
  have gap: "9/20 - 3/1048576 \<le> clamp t lo (total st) - start st"
    using r k1 xlo lo by linarith
  have sclose: "\<bar>start st - real_of_int (idx (start st)) / 10\<bar> \<le> 1/1048576"
    if "oneDecimal (start st)"
    using that s b(3) tb by (intro oneDecimal_close) linarith+
  have five: "idx (start st) + 5 \<le> k" if o: "oneDecimal (start st)"
  proof -
    from sclose [OF o] lo xlo k1 have "real_of_int (idx (start st)) + 5 - 1 < real_of_int k"
      by linarith
    then show ?thesis by (rule int_ge5)
  qed
  have upper: "real_of_int k / 10 \<le> total st + 1/20 + 5/1048576"
  proof (cases "lo \<le> total st")
    case True
    then have "x \<le> total st" by (simp add: x_def)
    with k2 show ?thesis by linarith
  next
    case False
    then have xe: "x = lo" by (simp add: x_def)
    show ?thesis
    proof (cases "oneDecimal (start st)")
      case False
      with so have "start st + 1/2 \<le> total st" by blast
      with lo xe k2 show ?thesis by linarith
    next
      case True
      from sclose [OF True] lo xe k2 have "real_of_int k < real_of_int (idx (start st)) + 5 + 1"
        by linarith
      then have kle: "k \<le> idx (start st) + 5" by (rule int_le5)
      show ?thesis
      proof (cases "end' st \<le> total st")
        case True
        have "real_of_int k \<le> real_of_int (idx (start st)) + 5"
          using kle by linarith
        with sclose [OF \<open>oneDecimal (start st)\<close>] g True show ?thesis by linarith
      next
        case False
        with e have oe: "oneDecimal (end' st)"
          and eb: "real_of_int (idx (end' st)) / 10 \<le> total st + 1/20 + 5/1048576" by blast+
        from both True oe have "idx (start st) + 5 \<le> idx (end' st)" by blast
        with kle have "k \<le> idx (end' st)" by linarith
        then have "real_of_int k \<le> real_of_int (idx (end' st))" by (simp only: of_int_le_iff)
        with eb show ?thesis by linarith
      qed
    qed
  qed
  show ?thesis
    unfolding rangeInv_def eqs
    using s tb gap od upper so five i by simp
qed

lemma rangeInv_start:
  assumes inv: "rangeInv st" and mv: "startMoved t st st'"
  shows "rangeInv st'"
proof -
  define hi where "hi = fsub (end' st) (1/2)"
  define x where "x = max 0 (min hi t)"
  from mv have eqs: "total st' = total st" "start st' = clamp t 0 hi" "end' st' = end' st"
    by (simp_all add: startMoved_def hi_def)
  from inv have s: "0 \<le> start st" and tb: "total st \<le> 536870912"
    and g: "9/20 - 3/1048576 \<le> end' st - start st"
    and e: "oneDecimal (end' st) \<and> real_of_int (idx (end' st)) / 10 \<le> total st + 1/20 + 5/1048576
         \<or> end' st \<le> total st"
    by (simp_all add: rangeInv_def)
  note b = rangeInv_bounds [OF inv]
  from b(1) b(4) have "\<bar>end' st - 1/2\<bar> \<le> 8589934592" by linarith
  then have hi: "\<bar>hi - (end' st - 1/2)\<bar> \<le> 1/1048576" unfolding hi_def by (rule fsub_close)
  have x0: "0 \<le> x" by (simp add: x_def)
  have xhi: "x \<le> max 0 hi" by (simp add: x_def)
  with hi b(4) have x1: "x \<le> 536870914" by linarith
  from clamp_spec [of 0 hi t] x0 x1
  obtain k :: int where c: "clamp t 0 hi = dbl (real_of_int k / 10)"
    and i: "idx (clamp t 0 hi) = k"
    and r: "\<bar>clamp t 0 hi - real_of_int k / 10\<bar> \<le> 1/1048576"
    and k2: "real_of_int k \<le> x * 10 + 1/2 + 1/1048576"
    and k0: "0 \<le> k"
    unfolding x_def by blast
  have od: "oneDecimal (clamp t 0 hi)"
    using c i by (simp add: oneDecimal_def)
  have nn: "0 \<le> clamp t 0 hi"
    by (rule clamp_nonneg) simp
  have gap: "9/20 - 3/1048576 \<le> end' st - clamp t 0 hi"
  proof (cases "0 \<le> hi")
    case True
    with xhi have "x \<le> hi" by simp
    with r k2 hi show ?thesis by linarith
  next
    case False
    with xhi x0 have "x = 0" by simp
    with k2 have "real_of_int k < 1" by simp
    then have "k \<le> 0" by linarith
    with k0 have "k = 0" by simp
    with c have "clamp t 0 hi = 0" by (simp add: dbl_def)
    with g s show ?thesis by linarith
  qed
  have five: "k + 5 \<le> idx (end' st)" if o: "oneDecimal (end' st)"
  proof -
    have ec: "\<bar>end' st - real_of_int (idx (end' st)) / 10\<bar> \<le> 1/1048576"
      using o b(1) b(4) by (intro oneDecimal_close) linarith+
    with g s have "4 < real_of_int (idx (end' st))" by linarith
    then have "5 \<le> idx (end' st)" by linarith
    then have "5 \<le> real_of_int (idx (end' st))" by simp
    with ec hi xhi have "x \<le> real_of_int (idx (end' st)) / 10 - 1/2 + 2/1048576" by linarith
    with k2 have "real_of_int k + 5 < real_of_int (idx (end' st)) + 1" by linarith
    then show ?thesis by linarith
  qed
  show ?thesis
    unfolding rangeInv_def eqs
    using nn tb gap od e five i by simp
qed

lemma rangeInv_same: "rangeInv st \<Longrightarrow> sameRange st st' \<Longrightarrow> rangeInv st'"
  by (simp add: rangeInv_def sameRange_def)

lemma rangeOk_rangeInv:
  assumes "rangeOk st" and "total st \<le> 536870912"
  shows "rangeInv st"
proof -
  from assms(1) have ok: "0 \<le> start st" "end' st \<le> total st" "1/2 \<le> end' st - start st"
    by (simp_all add: rangeOk_def)
  have "idx (start st) + 5 \<le> idx (end' st)" if "oneDecimal (start st)" "oneDecimal (end' st)"
  proof -
    have "\<bar>start st - real_of_int (idx (start st)) / 10\<bar> \<le> 1/1048576"
      using that(1) ok assms(2) by (intro oneDecimal_close) linarith+
    moreover have "\<bar>end' st - real_of_int (idx (end' st)) / 10\<bar> \<le> 1/1048576"
      using that(2) ok assms(2) by (intro oneDecimal_close) linarith+
    ultimately have "real_of_int (idx (start st)) + 5 - 1 < real_of_int (idx (end' st))"
      using ok by linarith
    then show ?thesis by (rule int_ge5)
  qed
  with ok assms(2) show ?thesis by (simp add: rangeInv_def)
qed

lemma move_cases:
  "sameRange st (move t st) \<or> startMoved t st (move t st) \<or> endMoved t st (move t st)"
  by (simp add: move_def handleTimelineChange_def Let_def sameRange_def startMoved_def
      endMoved_def total_def split: option.split handle.split)

lemma trim_step_cases:
  "\<exists>t. sameRange st (trim_step e st) \<or> startMoved t st (trim_step e st)
        \<or> endMoved t st (trim_step e st)"
proof (cases e)
  case (PointerDown x)
  let ?t = "toSeconds st x"
  let ?st = "st\<lparr>dragging := Some (if \<bar>fsub ?t (start st)\<bar> \<le> \<bar>fsub ?t (end' st)\<bar>
                 then HStart else HEnd)\<rparr>"
  have "sameRange ?st (move ?t ?st) \<or> startMoved ?t ?st (move ?t ?st)
        \<or> endMoved ?t ?st (move ?t ?st)"
    by (rule move_cases)
  then have "sameRange st (move ?t ?st) \<or> startMoved ?t st (move ?t ?st)
        \<or> endMoved ?t st (move ?t ?st)"
    by (simp add: sameRange_def startMoved_def endMoved_def total_def)
  then show ?thesis
    using PointerDown by (auto simp: handlePointerDown_def Let_def sameRange_def)
next
  case (PointerMove x)
  then show ?thesis
    using move_cases [of st "toSeconds st x"]
    by (auto simp: handlePointerMove_def sameRange_def)
next
  case PointerUp
  then show ?thesis by (simp add: handlePointerUp_def sameRange_def total_def)
next
  case (InputStart p)
  then show ?thesis
    by (auto simp: setStartSafe_def sameRange_def startMoved_def total_def)
next
  case (InputEnd p)
  then show ?thesis
    by (auto simp: setEndSafe_def sameRange_def endMoved_def total_def)
next
  case ClickConfirm
  then show ?thesis
    by (simp add: handleConfirm_def mutate_def sameRange_def total_def)
next
  case (SubmitSucceeded j)
  then show ?thesis by (simp add: sameRange_def total_def)
next
  case SubmitFailed
  then show ?thesis by (simp add: sameRange_def total_def)
next
  case ClickRetry
  then show ?thesis by (simp add: handleRetry_def sameRange_def total_def)
qed

lemma rangeInv_step: "rangeInv st \<Longrightarrow> rangeInv (trim_step e st)"
  using trim_step_cases [of st e] rangeInv_same rangeInv_start rangeInv_end by blast

lemma rangeInv_run: "rangeInv st \<Longrightarrow> rangeInv (trim_run es st)"
  by (induction es arbitrary: st) (simp_all add: rangeInv_step)

lemma total_step: "total (trim_step e st) = total st"
  using trim_step_cases [of st e] by (auto simp: sameRange_def startMoved_def endMoved_def)

lemma total_run: "total (trim_run es st) = total st"
  by (induction es arbitrary: st) (simp_all add: total_step)

lemma tenth_close: "\<bar>dbl (1/10) - 1/10\<bar> \<le> 1/1048576"
  by (rule dbl_close) simp

text \<open>
  C2 (as amended). For every state reachable from a valid initial range by any sequence
  of events of the editor (drags and numeric inputs among them), the duration being at
  most \<open>2^29\<close> seconds, \<open>0 \<le> start\<close> and \<open>end \<le> duration + 0.1\<close> hold, the latter
  also as the validity check computes it, \<open>end <= total + 0.1\<close> on doubles.
\<close>

theorem trim_range_bounds:
  assumes "rangeOk st" and "total st \<le> 536870912"
  shows "0 \<le> start (trim_run es st)
         \<and> end' (trim_run es st) \<le> total st + 1/10
         \<and> end' (trim_run es st) \<le> fadd (total st) (dbl (1/10))"
proof -
  let ?st = "trim_run es st"
  from assms have "rangeInv ?st" by (intro rangeInv_run rangeOk_rangeInv)
  then have s: "0 \<le> start ?st" and e: "end' ?st \<le> total st + 1/20 + 6/1048576"
    using rangeInv_bounds(2) [of ?st] by (simp_all add: rangeInv_def total_run)
  from assms(1) have "1/2 \<le> total st" by (simp add: rangeOk_def)
  with assms(2) tenth_close have "\<bar>total st + dbl (1/10)\<bar> \<le> 8589934592" by linarith
  then have "\<bar>fadd (total st) (dbl (1/10)) - (total st + dbl (1/10))\<bar> \<le> 1/1048576"
    by (rule fadd_close)
  with tenth_close e have "end' ?st \<le> fadd (total st) (dbl (1/10))" by linarith
  with s e show ?thesis by linarith
qed

lemma sample_ok: "rangeOk (mountTrim (Some 120) 5 (dbl (82/10)))"
  by (simp add: rangeOk_def mountTrim_def total_def dbl_def expo_def roundEven_def Let_def
      compute_bitlen)

theorem trim_range_bounds_witness:
  "rangeOk (mountTrim (Some 120) 5 (dbl (82/10)))
   \<and> total (mountTrim (Some 120) 5 (dbl (82/10))) \<le> 536870912
   \<and> 0 \<le> start (trim_run [InputStart (Some 9), InputEnd (Some 500)]
            (mountTrim (Some 120) 5 (dbl (82/10))))
   \<and> end' (trim_run [InputStart (Some 9), InputEnd (Some 500)]
            (mountTrim (Some 120) 5 (dbl (82/10)))) \<le> 120 + 1/10"
proof -
  have t: "total (mountTrim (Some 120) 5 (dbl (82/10))) = 120"
    by (simp add: mountTrim_def total_def)
  then have b: "total (mountTrim (Some 120) 5 (dbl (82/10))) \<le> 536870912" by simp
  from trim_range_bounds [OF sample_ok b, of "[InputStart (Some 9), InputEnd (Some 500)]"]
    sample_ok b t
  show ?thesis by simp
qed

text \<open>
  C2 as stated fails. A detected range from 10 to 10.5625 seconds in a media of 120
  seconds is valid; typing 11 into the start input stores \<open>clamp(11, 0, 10.0625) = 10.1\<close>,
  which leaves less than 0.5 seconds. With a duration of 120.0625 seconds, typing 200
  into the end input stores 120.1, beyond the duration. And from 5 to 8.2 seconds,
  typing 9 stores 7.7, and \<open>8.2 - 7.7\<close> is below 0.5 on doubles, both as the exact
  difference and as \<open>isValid\<close> computes it.
\<close>

theorem trim_range_counterexample:
  "rangeOk (mountTrim (Some 120) 10 (169/16))
   \<and> \<not> rangeOk (trim_run [InputStart (Some 11)] (mountTrim (Some 120) 10 (169/16)))
   \<and> rangeOk (mountTrim (Some (1921/16)) 10 15)
   \<and> \<not> rangeOk (trim_run [InputEnd (Some 200)] (mountTrim (Some (1921/16)) 10 15))
   \<and> rangeOk (mountTrim (Some 120) 5 (dbl (82/10)))
   \<and> \<not> rangeOk (trim_run [InputStart (Some 9)] (mountTrim (Some 120) 5 (dbl (82/10))))
   \<and> \<not> isValid (trim_run [InputStart (Some 9)] (mountTrim (Some 120) 5 (dbl (82/10))))"
  by code_simp

subsection \<open>The confirmation gate\<close>

lemma confirm_first_activation:
  assumes "confirmButton st = Rendered False" and "\<not> confirmed st"
  shows "confirmed (trim_step ClickConfirm st)
         \<and> requests (trim_step ClickConfirm st) = requests st"
  using assms by (simp add: handleConfirm_def)

lemma confirm_second_activation:
  assumes "confirmButton st = Rendered False" and "confirmed st"
  shows "requests (trim_step ClickConfirm st) = requests st @ [(start st, end' st)]"
  using assms by (simp add: handleConfirm_def mutate_def)

lemma confirm_gate:
  assumes "confirmButton st = Rendered False" and "\<not> confirmed st"
  shows "requests (trim_run [ClickConfirm, ClickConfirm] st) = requests st @ [(start st, end' st)]"
proof -
  let ?st = "st\<lparr>confirmed := True\<rparr>"
  from assms have 1: "trim_step ClickConfirm st = ?st"
    by (simp add: handleConfirm_def)
  from assms(1) have "confirmButton ?st = Rendered False"
    by (simp add: confirmButton_def isProcessing_def isValid_def removeDuration_def total_def
        split: if_splits)
  with assms show ?thesis
    by (simp add: handleConfirm_def mutate_def)
qed

lemma drag_resets_confirmation:
  assumes "dragging st \<noteq> None"
  shows "\<not> confirmed (move t st)"
  using assms
  by (auto simp: move_def handleTimelineChange_def Let_def split: option.split handle.split)

lemma pointer_resets_confirmation:
  assumes "\<not> isProcessing st"
  shows "\<not> confirmed (trim_step (PointerDown x) st)"
  using assms by (simp add: handlePointerDown_def Let_def drag_resets_confirmation)

lemma input_keeps_confirmation:
  "confirmed (trim_step (InputStart p) st) = confirmed st"
  "confirmed (trim_step (InputEnd p) st) = confirmed st"
  by (simp_all add: setStartSafe_def setEndSafe_def)

text \<open>
  C1. The gate itself works as claimed (the lemmas above), and a drag resets a pending
  confirmation, but a direct numeric input does not: \<open>setStartSafe\<close> and \<open>setEndSafe\<close>
  never touch \<open>confirmed\<close>. With the range 10 to 15 in 120 seconds: the first click
  confirms and sends nothing; typing 11 into the start input changes the range and
  leaves \<open>confirmed\<close> set; one more click then submits the changed range 11 to 15.
\<close>

theorem numeric_input_keeps_gate_open:
  "confirmed (trim_run [ClickConfirm] (mountTrim (Some 120) 10 15))
   \<and> requests (trim_run [ClickConfirm] (mountTrim (Some 120) 10 15)) = []
   \<and> start (trim_run [ClickConfirm, InputStart (Some 11)] (mountTrim (Some 120) 10 15)) = 11
   \<and> confirmed (trim_run [ClickConfirm, InputStart (Some 11)] (mountTrim (Some 120) 10 15))
   \<and> requests (trim_run [ClickConfirm, InputStart (Some 11), ClickConfirm]
        (mountTrim (Some 120) 10 15)) = [(11, 15)]"
  by code_simp

subsection \<open>Drags\<close>


lemma toSeconds_oneDecimal:
  assumes "0 \<le> total st" and "total st \<le> 536870912"
  shows "oneDecimal (toSeconds st x)"
  unfolding toSeconds_def Let_def using assms by (intro clamp_oneDecimal) simp_all




text \<open>
  The pointer events drag in this way: a pointer going down picks the nearer handle
  (the start handle on a tie) and drags it to the pointer, a moving pointer drags the
  handle picked.
\<close>

lemma pointer_move_drags:
  assumes "\<not> isProcessing st"
  shows "dragging st = Some HStart \<Longrightarrow>
           start (trim_step (PointerMove x) st)
             = clamp (toSeconds st x) 0 (fsub (end' st) (1/2))
           \<and> end' (trim_step (PointerMove x) st) = end' st"
    and "dragging st = Some HEnd \<Longrightarrow>
           end' (trim_step (PointerMove x) st)
             = clamp (toSeconds st x) (fadd (start st) (1/2)) (total st)
           \<and> start (trim_step (PointerMove x) st) = start st"
  using assms
  by (simp_all add: handlePointerMove_def move_def handleTimelineChange_def Let_def)

lemma pointer_down_drags:
  assumes "\<not> isProcessing st"
  shows "\<bar>fsub (toSeconds st x) (start st)\<bar> \<le> \<bar>fsub (toSeconds st x) (end' st)\<bar> \<Longrightarrow>
           start (trim_step (PointerDown x) st)
             = clamp (toSeconds st x) 0 (fsub (end' st) (1/2))
           \<and> end' (trim_step (PointerDown x) st) = end' st"
    and "\<not> \<bar>fsub (toSeconds st x) (start st)\<bar> \<le> \<bar>fsub (toSeconds st x) (end' st)\<bar> \<Longrightarrow>
           end' (trim_step (PointerDown x) st)
             = clamp (toSeconds st x) (fadd (start st) (1/2)) (total st)
           \<and> start (trim_step (PointerDown x) st) = start st"
  using assms
  by (simp_all add: handlePointerDown_def move_def handleTimelineChange_def Let_def total_def)

subsection \<open>The confirm button\<close>

text \<open>
  C10. In the editing view the confirm button is enabled exactly when \<open>start \<ge> 0\<close>,
  \<open>end \<le> duration + 0.1\<close>, \<open>end - start \<ge> 0.5\<close> and no submission is pending, the
  sum and the difference being the source's, on doubles. In exact terms, for numbers
  below \<open>2^31\<close>: an enabled button has \<open>end \<le> duration + 0.1\<close> and \<open>end - start \<ge> 0.5\<close>
  up to \<open>2^-19\<close>, and a range inside these bounds by \<open>2^-19\<close> enables it. So the check
  lets the end exceed the duration by 0.1 seconds.
\<close>

theorem confirm_enabled_iff:
  assumes "jobId st = None"
  shows "(confirmButton st = Rendered False \<longleftrightarrow>
           0 \<le> start st \<and> end' st \<le> fadd (total st) (dbl (1/10))
           \<and> 1/2 \<le> fsub (end' st) (start st) \<and> \<not> isPending st)
     \<and> (\<bar>total st\<bar> \<le> 4294967296 \<and> \<bar>start st\<bar> \<le> 2147483648 \<and> \<bar>end' st\<bar> \<le> 2147483648 \<longrightarrow>
         (confirmButton st = Rendered False \<longrightarrow>
            end' st \<le> total st + 1/10 + 1/524288 \<and> 1/2 - 1/1048576 \<le> end' st - start st)
         \<and> (0 \<le> start st \<and> end' st \<le> total st + 1/10 - 1/524288
              \<and> 1/2 + 1/1048576 \<le> end' st - start st \<and> \<not> isPending st \<longrightarrow>
            confirmButton st = Rendered False))"
proof -
  have a: "confirmButton st = Rendered False \<longleftrightarrow>
           0 \<le> start st \<and> end' st \<le> fadd (total st) (dbl (1/10))
           \<and> 1/2 \<le> fsub (end' st) (start st) \<and> \<not> isPending st"
    using assms
    by (auto simp: confirmButton_def isProcessing_def isValid_def removeDuration_def)
  have b: "(confirmButton st = Rendered False \<longrightarrow>
            end' st \<le> total st + 1/10 + 1/524288 \<and> 1/2 - 1/1048576 \<le> end' st - start st)
         \<and> (0 \<le> start st \<and> end' st \<le> total st + 1/10 - 1/524288
              \<and> 1/2 + 1/1048576 \<le> end' st - start st \<and> \<not> isPending st \<longrightarrow>
            confirmButton st = Rendered False)"
    if m: "\<bar>total st\<bar> \<le> 4294967296" "\<bar>start st\<bar> \<le> 2147483648" "\<bar>end' st\<bar> \<le> 2147483648"
  proof -
    from m(1) tenth_close have "\<bar>total st + dbl (1/10)\<bar> \<le> 8589934592" by linarith
    then have s: "\<bar>fadd (total st) (dbl (1/10)) - (total st + dbl (1/10))\<bar> \<le> 1/1048576"
      by (rule fadd_close)
    from m(2,3) have "\<bar>end' st - start st\<bar> \<le> 8589934592" by linarith
    then have d: "\<bar>fsub (end' st) (start st) - (end' st - start st)\<bar> \<le> 1/1048576"
      by (rule fsub_close)
    show ?thesis unfolding a using s d tenth_close by (intro conjI impI) linarith+
  qed
  from a b show ?thesis by blast
qed

theorem confirm_enabled_iff_witness:
  "jobId (mountTrim (Some 120) 10 (dbl (1201/10))) = None
   \<and> total (mountTrim (Some 120) 10 (dbl (1201/10))) < end' (mountTrim (Some 120) 10 (dbl (1201/10)))
   \<and> confirmButton (mountTrim (Some 120) 10 (dbl (1201/10))) = Rendered False
   \<and> end' (mountTrim (Some 120) 10 (dbl (1201/10)))
       \<le> total (mountTrim (Some 120) 10 (dbl (1201/10))) + 1/10 + 1/524288
   \<and> confirmButton (mountTrim (Some 120) 10 (dbl (1202/10))) = Rendered True
   \<and> confirmButton (mountTrim (Some 120) (dbl (77/10)) (dbl (82/10))) = Rendered True
   \<and> confirmButton (mountTrim (Some 120) (dbl (1/10)) (dbl (6/10))) = Rendered False
   \<and> confirmButton (mountTrim (Some (dbl (7/10))) 0 (dbl (8/10))) = Rendered True"
proof -
  have 0: "jobId (mountTrim (Some 120) 10 (dbl (1201/10))) = None"
    by (simp add: mountTrim_def)
  have 1: "0 \<le> start (mountTrim (Some 120) 10 (dbl (1201/10)))
      \<and> end' (mountTrim (Some 120) 10 (dbl (1201/10)))
          \<le> fadd (total (mountTrim (Some 120) 10 (dbl (1201/10)))) (dbl (1/10))
      \<and> 1/2 \<le> fsub (end' (mountTrim (Some 120) 10 (dbl (1201/10))))
                  (start (mountTrim (Some 120) 10 (dbl (1201/10))))
      \<and> \<not> isPending (mountTrim (Some 120) 10 (dbl (1201/10)))"
    by code_simp
  have 2: "total (mountTrim (Some 120) 10 (dbl (1201/10)))
      < end' (mountTrim (Some 120) 10 (dbl (1201/10)))"
    by code_simp
  have 3: "confirmButton (mountTrim (Some 120) 10 (dbl (1202/10))) = Rendered True
   \<and> confirmButton (mountTrim (Some 120) (dbl (77/10)) (dbl (82/10))) = Rendered True
   \<and> confirmButton (mountTrim (Some 120) (dbl (1/10)) (dbl (6/10))) = Rendered False
   \<and> confirmButton (mountTrim (Some (dbl (7/10))) 0 (dbl (8/10))) = Rendered True"
    by code_simp
  have 4: "\<bar>total (mountTrim (Some 120) 10 (dbl (1201/10)))\<bar> \<le> 4294967296
      \<and> \<bar>start (mountTrim (Some 120) 10 (dbl (1201/10)))\<bar> \<le> 2147483648
      \<and> \<bar>end' (mountTrim (Some 120) 10 (dbl (1201/10)))\<bar> \<le> 2147483648"
    by code_simp
  from confirm_enabled_iff [OF 0] 1
  have 5: "confirmButton (mountTrim (Some 120) 10 (dbl (1201/10))) = Rendered False" by blast
  with confirm_enabled_iff [OF 0] 4
  have "end' (mountTrim (Some 120) 10 (dbl (1201/10)))
       \<le> total (mountTrim (Some 120) 10 (dbl (1201/10))) + 1/10 + 1/524288" by blast
  with 0 2 3 5 show ?thesis by blast
qed

section \<open>Properties of the scan toast\<close>

lemma toast_run_append: "toast_run (es @ es') st = toast_run es' (toast_run es st)"
  by (induction es arbitrary: st) simp_all

lemma feedInv_mount: "feedInv f0 (mountToast f0)"
  by (simp add: feedInv_def mountToast_def seedEffect_def activeJobsEffect_def initToast_def
      nonEmptyFeed_def split: option.split list.split)

lemma feedInv_feed_None: "feedInv f st \<Longrightarrow> feedInv f (toast_step (FeedUpdate None) st)"
  by (simp add: activeJobsEffect_def)

lemma feedInv_feed_Some: "feedInv f st \<Longrightarrow> feedInv (Some jobs) (toast_step (FeedUpdate (Some jobs)) st)"
  by (auto simp: feedInv_def activeJobsEffect_def nonEmptyFeed_def getJob_def clearTimeout_def Let_def
      split: option.split list.split)

lemma feedInv_other:
  assumes "feedInv f st" and "\<And>a. e \<noteq> FeedUpdate a"
  shows "feedInv f (toast_step e st)"
  using assms
  by (cases e)
     (auto simp: feedInv_def onFinalJob_def onFetchError_def onDismissTimer_def dismiss_def
       clearTimeout_def setTimeout_def Let_def split: option.split)

lemma lastFeed_Cons: "lastFeed f (e # es) = lastFeed (lastFeed f [e]) es"
proof (cases e)
  case (FeedUpdate a)
  then show ?thesis by (cases a) simp_all
qed simp_all

lemma lastFeed_other: "(\<And>a. e \<noteq> FeedUpdate a) \<Longrightarrow> lastFeed f [e] = f"
  by (cases e) auto

lemma feedInv_step:
  assumes "feedInv f st"
  shows "feedInv (lastFeed f [e]) (toast_step e st)"
proof (cases "\<exists>a. e = FeedUpdate a")
  case True
  then obtain a where "e = FeedUpdate a" ..
  with assms show ?thesis
    by (cases a) (simp_all only: lastFeed.simps feedInv_feed_None feedInv_feed_Some)
next
  case False
  then have other: "\<And>a. e \<noteq> FeedUpdate a" by blast
  with assms have "feedInv f (toast_step e st)" by (rule feedInv_other)
  then show ?thesis by (simp only: lastFeed_other [OF other])
qed

lemma feedInv_run: "feedInv f st \<Longrightarrow> feedInv (lastFeed f es) (toast_run es st)"
proof (induction es arbitrary: f st)
  case Nil
  then show ?case by simp
next
  case (Cons e es)
  from Cons.prems have "feedInv (lastFeed f [e]) (toast_step e st)" by (rule feedInv_step)
  then have "feedInv (lastFeed (lastFeed f [e]) es) (toast_run es (toast_step e st))"
    by (rule Cons.IH)
  then show ?case by (simp only: lastFeed_Cons [of f e es] toast_run.simps)
qed

lemma feedInv_toastAfter: "feedInv (lastFeed f0 es) (toastAfter f0 es)"
  unfolding toastAfter_def by (rule feedInv_run [OF feedInv_mount])

subsection \<open>The follow-up fetch\<close>

lemma keepsSnapshot_step:
  assumes "keepsSnapshot e"
  shows "snap (toast_step e st) = snap st \<and> wasRunning (toast_step e st) = wasRunning st
         \<and> fetched (toast_step e st) = fetched st"
  using assms
  by (cases e)
     (auto simp: activeJobsEffect_def onFetchError_def onDismissTimer_def dismiss_def
        clearTimeout_def split: option.split)

lemma keepsSnapshot_run:
  assumes "list_all keepsSnapshot es"
  shows "snap (toast_run es st) = snap st \<and> wasRunning (toast_run es st) = wasRunning st
         \<and> fetched (toast_run es st) = fetched st"
  using assms
proof (induction es arbitrary: st)
  case Nil
  then show ?case by simp
next
  case (Cons e es)
  then have "keepsSnapshot e" "list_all keepsSnapshot es" by simp_all
  with Cons.IH [of "toast_step e st"] keepsSnapshot_step [of e st] show ?case by simp
qed

text \<open>
  C4 (as amended). After any history of a mounted toast, a feed update issues a
  follow-up fetch exactly when it is the empty list and the feed the toast saw last
  was not empty; it is one \<open>api.getJob\<close>, for the job of the toast's snapshot. That is
  the first job of the last non-empty feed value whenever no answer of a follow-up
  fetch (and no other defined feed value) came in between. The answer of the fetch
  sets the phase to completed for the status completed, to failed for failed, and to
  hidden for any other status.
\<close>

theorem follow_up_fetch:
  "(f = Some [] \<and> nonEmptyFeed (lastFeed f0 es) \<longrightarrow>
      (\<exists>s. snap (toastAfter f0 es) = Some s \<and>
           fetched (toast_step (FeedUpdate f) (toastAfter f0 es))
             = fetched (toastAfter f0 es) @ [job_id s]))
   \<and> (\<not> (f = Some [] \<and> nonEmptyFeed (lastFeed f0 es)) \<longrightarrow>
      fetched (toast_step (FeedUpdate f) (toastAfter f0 es)) = fetched (toastAfter f0 es))
   \<and> (list_all keepsSnapshot mid \<longrightarrow>
      fetched (toastAfter f0 (es @ FeedUpdate (Some (job # rest)) # mid @ [FeedUpdate (Some [])]))
        = fetched (toastAfter f0 es) @ [job_id job])
   \<and> (job_id finalJob \<in> set (fetching (toastAfter f0 es)) \<longrightarrow>
      phase (toast_step (JobFetched finalJob) (toastAfter f0 es))
        = (case status finalJob of JCompleted \<Rightarrow> Completed | JFailed \<Rightarrow> Failed | _ \<Rightarrow> Hidden)
      \<and> fetched (toast_step (JobFetched finalJob) (toastAfter f0 es))
        = fetched (toastAfter f0 es))"
proof -
  let ?st = "toastAfter f0 es"
  have inv: "wasRunning ?st = nonEmptyFeed (lastFeed f0 es)" "wasRunning ?st \<longrightarrow> snap ?st \<noteq> None"
    using feedInv_toastAfter [of f0 es] by (simp_all add: feedInv_def)
  have 1: "\<exists>s. snap ?st = Some s \<and>
      fetched (toast_step (FeedUpdate f) ?st) = fetched ?st @ [job_id s]"
    if "f = Some []" "nonEmptyFeed (lastFeed f0 es)"
    using that inv by (auto simp: activeJobsEffect_def getJob_def)
  have 2: "fetched (toast_step (FeedUpdate f) ?st) = fetched ?st"
    if "\<not> (f = Some [] \<and> nonEmptyFeed (lastFeed f0 es))"
    using that inv
    by (auto simp: activeJobsEffect_def getJob_def clearTimeout_def Let_def
        split: option.split list.split)
  have 3: "fetched (toastAfter f0 (es @ FeedUpdate (Some (job # rest)) # mid @ [FeedUpdate (Some [])]))
      = fetched ?st @ [job_id job]"
    if q: "list_all keepsSnapshot mid"
  proof -
    let ?a = "toast_step (FeedUpdate (Some (job # rest))) ?st"
    have a: "snap ?a = Some job" "wasRunning ?a" "fetched ?a = fetched ?st"
      by (simp_all add: activeJobsEffect_def clearTimeout_def Let_def split: option.split)
    with keepsSnapshot_run [OF q, of ?a]
    have m: "snap (toast_run mid ?a) = Some job" "wasRunning (toast_run mid ?a)"
      "fetched (toast_run mid ?a) = fetched ?st"
      by simp_all
    have "toastAfter f0 (es @ FeedUpdate (Some (job # rest)) # mid @ [FeedUpdate (Some [])])
        = toast_step (FeedUpdate (Some [])) (toast_run mid ?a)"
      by (simp add: toastAfter_def toast_run_append)
    with m show ?thesis by (simp add: activeJobsEffect_def getJob_def)
  qed
  have 4: "phase (toast_step (JobFetched finalJob) ?st)
        = (case status finalJob of JCompleted \<Rightarrow> Completed | JFailed \<Rightarrow> Failed | _ \<Rightarrow> Hidden)
      \<and> fetched (toast_step (JobFetched finalJob) ?st) = fetched ?st"
    if "job_id finalJob \<in> set (fetching ?st)"
    using that by (cases "status finalJob") (simp_all add: onFinalJob_def setTimeout_def Let_def)
  from 1 2 3 4 show ?thesis by blast
qed

theorem follow_up_fetch_witness:
  "nonEmptyFeed (lastFeed None [FeedUpdate (Some [job1])])
   \<and> fetched (toastAfter None [FeedUpdate (Some [job1])]) = []
   \<and> fetched (toast_step (FeedUpdate (Some [])) (toastAfter None [FeedUpdate (Some [job1])])) = [1]
   \<and> fetched (toast_step (FeedUpdate (Some [job1])) (toastAfter None [FeedUpdate (Some [job1])])) = []
   \<and> list_all keepsSnapshot [FeedUpdate None, ClickCancel, CancelFailed]
   \<and> fetched (toastAfter None ([] @ FeedUpdate (Some (job1 # [])) #
        [FeedUpdate None, ClickCancel, CancelFailed] @ [FeedUpdate (Some [])])) = [1]
   \<and> job_id (job1\<lparr>status := JCompleted, issues_found := 3\<rparr>)
        \<in> set (fetching (toastAfter None [FeedUpdate (Some [job1]), FeedUpdate (Some [])]))
   \<and> phase (toast_step (JobFetched (job1\<lparr>status := JCompleted, issues_found := 3\<rparr>))
        (toastAfter None [FeedUpdate (Some [job1]), FeedUpdate (Some [])])) = Completed"
  using follow_up_fetch [of "Some []" None "[FeedUpdate (Some [job1])]" "[]" job1 "[]" job1]
    follow_up_fetch [of "Some [job1]" None "[FeedUpdate (Some [job1])]" "[]" job1 "[]" job1]
    follow_up_fetch [of None None "[]" "[FeedUpdate None, ClickCancel, CancelFailed]" job1 "[]" job1]
    follow_up_fetch [of None None "[FeedUpdate (Some [job1]), FeedUpdate (Some [])]" "[]" job1 "[]"
      "job1\<lparr>status := JCompleted, issues_found := 3\<rparr>"]
  by (simp add: toastAfter_def mountToast_def seedEffect_def activeJobsEffect_def initToast_def
      nonEmptyFeed_def getJob_def job1_def)

text \<open>
  C4 as stated fails. The first scan leaves the feed and its follow-up fetch is sent;
  the second scan appears; the late answer for the first scan overwrites the snapshot
  (\<open>setSnap(finalJob)\<close>); when the second scan leaves the feed, the follow-up fetch asks
  for job 1 again and never for job 2, the job of the previous feed value.
\<close>

theorem follow_up_fetch_counterexample:
  "lastFeed None lateAnswerTrace = Some [job2]
   \<and> job_id job2 = 2
   \<and> fetched (toastAfter None lateAnswerTrace) = [1]
   \<and> fetched (toastAfter None (lateAnswerTrace @ [FeedUpdate (Some [])])) = [1, 1]"
  by (simp add: lateAnswerTrace_def toastAfter_def mountToast_def seedEffect_def
      activeJobsEffect_def initToast_def getJob_def job1_def job2_def
      onFinalJob_def setTimeout_def clearTimeout_def Let_def)

subsection \<open>A failed follow-up fetch\<close>

text \<open>
  C9. When the follow-up fetch is rejected the phase becomes hidden and the toast
  renders nothing; the snapshot, and with it any error message, stays as it was. The
  phase failed is entered by one event only: the answer of a fetch whose job has the
  status failed.
\<close>

theorem fetch_failure_hides:
  "(i \<in> set (fetching st) \<longrightarrow>
      phase (toast_step (JobFetchFailed i) st) = Hidden
      \<and> \<not> shown (toast_step (JobFetchFailed i) st)
      \<and> snap (toast_step (JobFetchFailed i) st) = snap st
      \<and> timers (toast_step (JobFetchFailed i) st) = timers st)
   \<and> (phase (toast_step e st) = Failed \<and> phase st \<noteq> Failed \<longrightarrow>
      (\<exists>finalJob. e = JobFetched finalJob \<and> status finalJob = JFailed))"
proof -
  have 1: "phase (toast_step (JobFetchFailed i) st) = Hidden
      \<and> \<not> shown (toast_step (JobFetchFailed i) st)
      \<and> snap (toast_step (JobFetchFailed i) st) = snap st
      \<and> timers (toast_step (JobFetchFailed i) st) = timers st"
    if "i \<in> set (fetching st)"
    using that by (simp add: onFetchError_def shown_def)
  have 2: "\<exists>finalJob. e = JobFetched finalJob \<and> status finalJob = JFailed"
    if "phase (toast_step e st) = Failed" "phase st \<noteq> Failed"
    using that
    by (cases e)
       (auto simp: activeJobsEffect_def getJob_def clearTimeout_def onFinalJob_def
          setTimeout_def onFetchError_def onDismissTimer_def dismiss_def Let_def
          split: option.splits list.splits if_splits)
  from 1 2 show ?thesis by blast
qed

theorem fetch_failure_hides_witness:
  "1 \<in> set (fetching (toastAfter None [FeedUpdate (Some [job1]), FeedUpdate (Some [])]))
   \<and> phase (toastAfter None [FeedUpdate (Some [job1]), FeedUpdate (Some [])]) = Running
   \<and> phase (toast_step (JobFetchFailed 1)
        (toastAfter None [FeedUpdate (Some [job1]), FeedUpdate (Some [])])) = Hidden
   \<and> phase (toast_step (JobFetched (job1\<lparr>status := JFailed\<rparr>))
        (toastAfter None [FeedUpdate (Some [job1]), FeedUpdate (Some [])])) = Failed"
  using fetch_failure_hides [of 1 "toastAfter None [FeedUpdate (Some [job1]), FeedUpdate (Some [])]"
      "JobFetched (job1\<lparr>status := JFailed\<rparr>)"]
  by (simp add: toastAfter_def mountToast_def seedEffect_def activeJobsEffect_def initToast_def
      getJob_def job1_def onFinalJob_def)

subsection \<open>The dismiss timer\<close>

lemma completed_schedules_timer:
  assumes "job_id finalJob \<in> set (fetching st)" and "status finalJob = JCompleted"
  shows "phase (toast_step (JobFetched finalJob) st) = Completed
         \<and> timers (toast_step (JobFetched finalJob) st) = timers st @ [(nextTimer st, 5000)]
         \<and> dismissTimer (toast_step (JobFetched finalJob) st) = Some (nextTimer st)
         \<and> phase (toast_step (TimerFired (nextTimer st)) (toast_step (JobFetched finalJob) st))
             = Hidden"
  using assms by (simp add: onFinalJob_def setTimeout_def Let_def onDismissTimer_def clearTimeout_def)

lemma active_feed_cancels_timer:
  assumes "dismissTimer st = Some h"
  shows "phase (toast_step (FeedUpdate (Some (job # rest))) st) = Running
         \<and> h \<notin> fst ` set (timers (toast_step (FeedUpdate (Some (job # rest))) st))
         \<and> dismissTimer (toast_step (FeedUpdate (Some (job # rest))) st) = None"
  using assms by (auto simp: activeJobsEffect_def clearTimeout_def Let_def)

lemma active_feed_no_timer_left:
  assumes "set (timers st) \<subseteq> {(h, 5000)}" and "dismissTimer st = Some h"
  shows "timers (toast_step (FeedUpdate (Some (job # rest))) st) = []"
proof -
  from assms(1) have "filter (\<lambda>p. fst p \<noteq> h) (timers st) = []"
    by (auto simp: filter_empty_conv)
  with assms(2) show ?thesis
    by (simp add: activeJobsEffect_def clearTimeout_def Let_def)
qed

text \<open>
  C7. Entering completed schedules one timer of 5000 ms whose firing hides the toast,
  and a feed update with an active job clears the timer that \<open>dismissTimer\<close> holds
  (the lemmas above). But the completed branch stores the new handle over the old one
  without clearing it: after two completions in a row the first timer is out of reach.
  In \<open>staleTimerTrace\<close> the third scan turns the phase to running and clears the second
  timer only; the first is still pending, and when it fires the toast is hidden while
  the third scan is active.
\<close>

theorem stale_timer_hides_running_toast:
  "phase (toastAfter None staleTimerTrace) = Running
   \<and> dismissTimer (toastAfter None staleTimerTrace) = None
   \<and> timers (toastAfter None staleTimerTrace) = [(1, 5000)]
   \<and> nonEmptyFeed (lastFeed None (staleTimerTrace @ [TimerFired 1]))
   \<and> phase (toastAfter None (staleTimerTrace @ [TimerFired 1])) = Hidden"
  by (simp add: staleTimerTrace_def toastAfter_def mountToast_def seedEffect_def
      activeJobsEffect_def initToast_def nonEmptyFeed_def getJob_def job1_def job2_def job3_def
      onFinalJob_def setTimeout_def clearTimeout_def onDismissTimer_def Let_def)

text \<open>
  One late answer is enough to hide the toast of a running scan: the follow-up fetch of
  the first scan answers after the second scan has appeared in the feed, the phase
  turns to completed, and the timer set then fires before the feed changes again.
\<close>

lemma late_fetch_hides_running_toast:
  "phase (toastAfter None [FeedUpdate (Some [job1]), FeedUpdate (Some []),
      FeedUpdate (Some [job2]), JobFetched (job1\<lparr>status := JCompleted\<rparr>)]) = Completed
   \<and> nonEmptyFeed (lastFeed None [FeedUpdate (Some [job1]), FeedUpdate (Some []),
      FeedUpdate (Some [job2]), JobFetched (job1\<lparr>status := JCompleted\<rparr>), TimerFired 1])
   \<and> phase (toastAfter None [FeedUpdate (Some [job1]), FeedUpdate (Some []),
      FeedUpdate (Some [job2]), JobFetched (job1\<lparr>status := JCompleted\<rparr>), TimerFired 1]) = Hidden"
  by (simp add: toastAfter_def mountToast_def seedEffect_def
      activeJobsEffect_def initToast_def nonEmptyFeed_def getJob_def job1_def job2_def
      onFinalJob_def setTimeout_def clearTimeout_def onDismissTimer_def Let_def)

section \<open>Properties of the connection flow\<close>

lemma plex_run_append: "plex_run (es @ es') st = plex_run es' (plex_run es st)"
  by (induction es arbitrary: st) simp_all

lemma stopPolling_clears:
  assumes "pollInv st"
  shows "intervals (stopPolling st) = [] \<and> pollRef (stopPolling st) = None"
proof (cases "pollRef st")
  case None
  with assms show ?thesis by (simp add: pollInv_def stopPolling_def)
next
  case (Some h)
  with assms have "map fst (intervals st) = [h]" by (simp add: pollInv_def)
  then obtain p where "intervals st = [p]" "fst p = h" by auto
  with Some show ?thesis by (simp add: stopPolling_def)
qed

lemma pollInv_stopPolling: "pollInv st \<Longrightarrow> pollInv (stopPolling st)"
  using stopPolling_clears [of st] by (simp add: pollInv_def)

lemma startPolling_sets:
  assumes "pollInv st"
  shows "intervals (startPolling i st) = [(nextInterval st, 2000, i)]
         \<and> pollRef (startPolling i st) = Some (nextInterval st)
         \<and> nextInterval (startPolling i st) = Suc (nextInterval st)"
proof -
  have "nextInterval (stopPolling st) = nextInterval st"
    by (simp add: stopPolling_def split: option.split)
  with stopPolling_clears [OF assms] show ?thesis
    by (simp add: startPolling_def Let_def)
qed

lemma pollInv_startPolling: "pollInv st \<Longrightarrow> pollInv (startPolling i st)"
  using startPolling_sets [of st i] by (simp add: pollInv_def)

lemma pollInv_cong:
  assumes "pollInv st" and "pollRef st' = pollRef st" and "intervals st' = intervals st"
    and "nextInterval st' = nextInterval st"
  shows "pollInv st'"
  using assms by (simp add: pollInv_def)

lemma pollInv_step: "pollInv st \<Longrightarrow> pollInv (plex_step e st)"
proof (cases e)
  case (AuthStartOk pin_id pin_code auth_url)
  assume inv: "pollInv st"
  let ?st = "(settle AuthStart st)\<lparr>pinCode := pin_code, authUrl := auth_url, phase' := AwaitingAuth\<rparr>"
  from inv have "pollInv ?st" by (rule pollInv_cong) (simp_all add: settle_def)
  then have "pollInv (startPolling pin_id ?st)" by (rule pollInv_startPolling)
  with inv AuthStartOk show ?thesis by (simp add: startAuth_onSuccess_def)
next
  case (PollOk i authenticated)
  assume inv: "pollInv st"
  then have "pollInv (settle (AuthPoll i) st)" by (rule pollInv_cong) (simp_all add: settle_def)
  then have "pollInv (stopPolling (settle (AuthPoll i) st))" by (rule pollInv_stopPolling)
  then have "pollInv (call Servers ((stopPolling (settle (AuthPoll i) st))\<lparr>phase' := PickingServer\<rparr>))"
    by (rule pollInv_cong) (simp_all add: call_def)
  with inv PollOk show ?thesis by (simp add: onPollResult_def pollInv_cong [OF inv] settle_def)
next
  case ClickCancelFlow
  assume inv: "pollInv st"
  then have "pollInv (stopPolling st)" by (rule pollInv_stopPolling)
  then have "pollInv (cancel st)" by (rule pollInv_cong) (simp_all add: cancel_def)
  with inv ClickCancelFlow show ?thesis by simp
next
  case Unmount
  then show "pollInv st \<Longrightarrow> ?thesis" by (simp add: pollInv_stopPolling)
next
  case (Tick h)
  assume inv: "pollInv st"
  show ?thesis unfolding Tick
    by (rule pollInv_cong [OF inv])
       (auto simp: onTick_def call_def split: list.split)
qed (auto simp: pollInv_def statusEffect_def startAuth_mutate_def startAuth_onError_def
       call_def settle_def onServers_def invalidate_def selectServer_mutate_def
       selectServer_onSuccess_def selectServer_onError_def saveLibraries_onSuccess_def
       saveLibraries_onError_def disconnect_onSuccess_def)

lemma pollInv_run: "pollInv st \<Longrightarrow> pollInv (plex_run es st)"
  by (induction es arbitrary: st) (simp_all add: pollInv_step)

lemma pollInv_plexAfter: "pollInv (plexAfter es)"
  unfolding plexAfter_def by (rule pollInv_run) (simp add: pollInv_def initPlex_def)

subsection \<open>The authorization poll\<close>

lemma waiting_step:
  assumes "waiting e"
  shows "phase' (plex_step e st) = phase' st \<and> pollRef (plex_step e st) = pollRef st
         \<and> intervals (plex_step e st) = intervals st
         \<and> count_list (calls (plex_step e st)) Servers = count_list (calls st) Servers"
  using assms
  by (cases e) (auto simp: onTick_def call_def settle_def onPollResult_def split: list.split)

lemma waiting_run:
  assumes "list_all waiting es"
  shows "phase' (plex_run es st) = phase' st \<and> pollRef (plex_run es st) = pollRef st
         \<and> intervals (plex_run es st) = intervals st
         \<and> count_list (calls (plex_run es st)) Servers = count_list (calls st) Servers"
  using assms
proof (induction es arbitrary: st)
  case Nil
  then show ?case by simp
next
  case (Cons e es)
  then have "waiting e" "list_all waiting es" by simp_all
  with Cons.IH [of "plex_step e st"] waiting_step [of e st] show ?case by simp
qed

lemma settled_step:
  assumes "intervals st = []" and "filter isPoll (pending st) = []" and "\<not> startsFlow e"
  shows "intervals (plex_step e st) = [] \<and> filter isPoll (pending (plex_step e st)) = []
         \<and> count_list (calls (plex_step e st)) Servers = count_list (calls st) Servers"
proof -
  from assms(2) have np: "\<And>i. AuthPoll i \<notin> set (pending st)"
    by (auto simp: filter_empty_conv)
  from assms(2) have rm: "\<And>c. filter isPoll (remove1 c (pending st)) = []"
    by (simp add: filter_remove1)
  from assms(1,3) np rm assms(2) show ?thesis
    by (cases e)
       (auto simp: statusEffect_def startAuth_mutate_def startAuth_onError_def call_def
          settle_def stopPolling_def onServers_def invalidate_def cancel_def
          selectServer_mutate_def selectServer_onSuccess_def selectServer_onError_def
          selectCall_def
          saveLibraries_onSuccess_def saveLibraries_onError_def disconnect_onSuccess_def
          split: option.split)
qed

lemma settled_run:
  assumes "intervals st = []" and "filter isPoll (pending st) = []" and "\<not> list_ex startsFlow es"
  shows "count_list (calls (plex_run es st)) Servers = count_list (calls st) Servers"
  using assms
proof (induction es arbitrary: st)
  case Nil
  then show ?case by simp
next
  case (Cons e es)
  then have "\<not> startsFlow e" "\<not> list_ex startsFlow es" by simp_all
  with Cons.IH [of "plex_step e st"] settled_step [of st e] Cons.prems(1,2) show ?case by simp
qed

text \<open>
  C6 (as amended). From any reachable state with a pending \<open>plexAuthStart\<close>, let the
  request succeed with pin \<open>pin_id\<close>, let anything happen that can happen while waiting
  (the interval firing, polls answering "not authenticated", polls failing, in any
  order), and let a poll in flight then answer "authenticated". Until that answer the
  phase is awaiting_auth and the one interval set has the period 2000 ms; the answer
  stops the poll (no interval is left, so no tick polls again), exactly one
  \<open>plexServers\<close> call has been issued since the flow started, and the phase is
  picking_server. If no other poll is in flight when the answer arrives, the count
  stays at one whatever happens next, until a new authorization is started.
\<close>

theorem auth_poll_success:
  assumes "AuthStart \<in> set (pending (plexAfter pre))"
    and "list_all waiting es"
    and "AuthPoll pin_id \<in> set (pending
           (plex_run es (plex_step (AuthStartOk pin_id code url) (plexAfter pre))))"
  shows "phase' (plex_run es (plex_step (AuthStartOk pin_id code url) (plexAfter pre)))
           = AwaitingAuth
     \<and> intervals (plex_run es (plex_step (AuthStartOk pin_id code url) (plexAfter pre)))
           = [(nextInterval (plexAfter pre), 2000, pin_id)]
     \<and> phase' (plex_run (es @ [PollOk pin_id True])
           (plex_step (AuthStartOk pin_id code url) (plexAfter pre))) = PickingServer
     \<and> pollRef (plex_run (es @ [PollOk pin_id True])
           (plex_step (AuthStartOk pin_id code url) (plexAfter pre))) = None
     \<and> intervals (plex_run (es @ [PollOk pin_id True])
           (plex_step (AuthStartOk pin_id code url) (plexAfter pre))) = []
     \<and> count_list (calls (plex_run (es @ [PollOk pin_id True])
           (plex_step (AuthStartOk pin_id code url) (plexAfter pre)))) Servers
         = Suc (count_list (calls (plexAfter pre)) Servers)
     \<and> (\<forall>h. plex_step (Tick h) (plex_run (es @ [PollOk pin_id True])
           (plex_step (AuthStartOk pin_id code url) (plexAfter pre)))
         = plex_run (es @ [PollOk pin_id True])
           (plex_step (AuthStartOk pin_id code url) (plexAfter pre)))
     \<and> (filter isPoll (pending
           (plex_run es (plex_step (AuthStartOk pin_id code url) (plexAfter pre))))
           = [AuthPoll pin_id] \<and> \<not> list_ex startsFlow es' \<longrightarrow>
         count_list (calls (plex_run (es @ PollOk pin_id True # es')
           (plex_step (AuthStartOk pin_id code url) (plexAfter pre)))) Servers
         = Suc (count_list (calls (plexAfter pre)) Servers))"
proof -
  let ?st0 = "plexAfter pre"
  let ?st1 = "plex_step (AuthStartOk pin_id code url) ?st0"
  let ?w = "plex_run es ?st1"
  let ?w' = "plex_run (es @ [PollOk pin_id True]) ?st1"
  let ?pre = "(settle AuthStart ?st0)\<lparr>pinCode := code, authUrl := url, phase' := AwaitingAuth\<rparr>"
  have "pollInv ?st0" by (rule pollInv_plexAfter)
  then have inv: "pollInv ?pre" by (rule pollInv_cong) (simp_all add: settle_def)
  have st1: "?st1 = startPolling pin_id ?pre"
    using assms(1) by (simp add: startAuth_onSuccess_def)
  have nx: "nextInterval ?pre = nextInterval ?st0" by (simp add: settle_def)
  have ph1: "phase' ?st1 = AwaitingAuth"
    unfolding st1 by (simp add: startPolling_def stopPolling_def Let_def split: option.split)
  have ca1: "calls ?st1 = calls ?st0"
    unfolding st1
    by (simp add: startPolling_def stopPolling_def Let_def settle_def split: option.split)
  have iv1: "intervals ?st1 = [(nextInterval ?st0, 2000, pin_id)]"
    and pr1: "pollRef ?st1 = Some (nextInterval ?st0)"
    unfolding st1 using startPolling_sets [OF inv, of pin_id] nx by simp_all
  from waiting_run [OF assms(2), of ?st1] ph1 ca1 iv1 pr1
  have w: "phase' ?w = AwaitingAuth" "intervals ?w = [(nextInterval ?st0, 2000, pin_id)]"
    "pollRef ?w = Some (nextInterval ?st0)"
    "count_list (calls ?w) Servers = count_list (calls ?st0) Servers"
    by simp_all
  have w': "?w' = call Servers ((stopPolling (settle (AuthPoll pin_id) ?w))\<lparr>phase' := PickingServer\<rparr>)"
    using assms(3) by (simp add: plex_run_append onPollResult_def)
  have stop: "stopPolling (settle (AuthPoll pin_id) ?w)
      = (settle (AuthPoll pin_id) ?w)\<lparr>intervals := [], pollRef := None\<rparr>"
    using w by (simp add: stopPolling_def settle_def)
  have r: "phase' ?w' = PickingServer" "pollRef ?w' = None" "intervals ?w' = []"
    "count_list (calls ?w') Servers = Suc (count_list (calls ?st0) Servers)"
    unfolding w' stop using w by (simp_all add: call_def settle_def)
  from \<open>intervals ?w' = []\<close> have t: "\<forall>h. plex_step (Tick h) ?w' = ?w'" by simp
  have once: "count_list (calls (plex_run (es @ PollOk pin_id True # es') ?st1)) Servers
      = Suc (count_list (calls ?st0) Servers)"
    if one: "filter isPoll (pending ?w) = [AuthPoll pin_id]" and "\<not> list_ex startsFlow es'"
  proof -
    have "filter isPoll (pending ?w') = []"
      unfolding w' stop using one by (simp add: call_def settle_def filter_remove1)
    from settled_run [OF r(3) this that(2)] r(4)
    have "count_list (calls (plex_run es' ?w')) Servers = Suc (count_list (calls ?st0) Servers)"
      by simp
    moreover have "plex_run (es @ PollOk pin_id True # es') ?st1 = plex_run es' ?w'"
      by (simp add: plex_run_append)
    ultimately show ?thesis by simp
  qed
  from w r t once show ?thesis by blast
qed

theorem auth_poll_success_witness:
  "AuthStart \<in> set (pending (plexAfter [StatusLoaded False, ClickConnect]))
   \<and> list_all waiting authScenario
   \<and> AuthPoll 7 \<in> set (pending (plex_run authScenario
        (plex_step (AuthStartOk 7 ''ABCD'' ''https://plex.tv/link'')
           (plexAfter [StatusLoaded False, ClickConnect]))))
   \<and> filter isPoll (pending (plex_run authScenario
        (plex_step (AuthStartOk 7 ''ABCD'' ''https://plex.tv/link'')
           (plexAfter [StatusLoaded False, ClickConnect])))) = [AuthPoll 7]
   \<and> \<not> list_ex startsFlow [ServersOk [someServer], Tick 1, ClickSelect someServer]
   \<and> phase' (plex_run (authScenario @ [PollOk 7 True])
        (plex_step (AuthStartOk 7 ''ABCD'' ''https://plex.tv/link'')
           (plexAfter [StatusLoaded False, ClickConnect]))) = PickingServer
   \<and> count_list (calls (plex_run (authScenario @ [PollOk 7 True])
        (plex_step (AuthStartOk 7 ''ABCD'' ''https://plex.tv/link'')
           (plexAfter [StatusLoaded False, ClickConnect])))) Servers = 1
   \<and> count_list (calls (plex_run
        (authScenario @ PollOk 7 True # [ServersOk [someServer], Tick 1, ClickSelect someServer])
        (plex_step (AuthStartOk 7 ''ABCD'' ''https://plex.tv/link'')
           (plexAfter [StatusLoaded False, ClickConnect])))) Servers = 1"
proof -
  have 1: "AuthStart \<in> set (pending (plexAfter [StatusLoaded False, ClickConnect]))"
    by (simp add: plexAfter_def initPlex_def statusEffect_def startAuth_mutate_def call_def)
  have 2: "list_all waiting authScenario" by (simp add: authScenario_def)
  have 5: "filter isPoll (pending (plex_run authScenario
        (plex_step (AuthStartOk 7 ''ABCD'' ''https://plex.tv/link'')
           (plexAfter [StatusLoaded False, ClickConnect])))) = [AuthPoll 7]"
    by (simp add: authScenario_def plexAfter_def initPlex_def statusEffect_def
        startAuth_mutate_def call_def settle_def startAuth_onSuccess_def startPolling_def
        stopPolling_def onTick_def onPollResult_def Let_def)
  have 3: "AuthPoll 7 \<in> set (pending (plex_run authScenario
        (plex_step (AuthStartOk 7 ''ABCD'' ''https://plex.tv/link'')
           (plexAfter [StatusLoaded False, ClickConnect]))))"
    by (simp add: authScenario_def plexAfter_def initPlex_def statusEffect_def
        startAuth_mutate_def call_def settle_def startAuth_onSuccess_def startPolling_def
        stopPolling_def onTick_def onPollResult_def Let_def)
  have 4: "count_list (calls (plexAfter [StatusLoaded False, ClickConnect])) Servers = 0"
    by (simp add: plexAfter_def initPlex_def statusEffect_def startAuth_mutate_def call_def)
  have 6: "\<not> list_ex startsFlow [ServersOk [someServer], Tick 1, ClickSelect someServer]"
    by simp
  from auth_poll_success [OF 1 2 3,
      of "[ServersOk [someServer], Tick 1, ClickSelect someServer]"] 5 6 4
  have "phase' (plex_run (authScenario @ [PollOk 7 True])
        (plex_step (AuthStartOk 7 ''ABCD'' ''https://plex.tv/link'')
           (plexAfter [StatusLoaded False, ClickConnect]))) = PickingServer"
    and "count_list (calls (plex_run (authScenario @ [PollOk 7 True])
        (plex_step (AuthStartOk 7 ''ABCD'' ''https://plex.tv/link'')
           (plexAfter [StatusLoaded False, ClickConnect])))) Servers = 1"
    and "count_list (calls (plex_run
        (authScenario @ PollOk 7 True # [ServersOk [someServer], Tick 1, ClickSelect someServer])
        (plex_step (AuthStartOk 7 ''ABCD'' ''https://plex.tv/link'')
           (plexAfter [StatusLoaded False, ClickConnect])))) Servers = 1"
    by simp_all
  with 1 2 3 5 6 show ?thesis by blast
qed

text \<open>
  C6 as stated fails. With two polls in flight that both answer "authenticated", the
  second answer passes the same unguarded code after the \<open>await\<close> and \<open>plexServers\<close> is
  called a second time.
\<close>

theorem auth_poll_counterexample:
  "phase' (plexAfter overlapTrace) = PickingServer
   \<and> intervals (plexAfter overlapTrace) = []
   \<and> pending (plexAfter overlapTrace) = [AuthPoll 7, Servers]
   \<and> calls (plexAfter (overlapTrace @ [PollOk 7 True]))
       = [AuthStart, AuthPoll 7, AuthPoll 7, Servers, Servers]
   \<and> count_list (calls (plexAfter (overlapTrace @ [PollOk 7 True]))) Servers = 2"
  by (simp add: overlapTrace_def plexAfter_def initPlex_def statusEffect_def
      startAuth_mutate_def call_def settle_def startAuth_onSuccess_def startPolling_def
      stopPolling_def onTick_def onPollResult_def Let_def)

subsection \<open>Cancelling\<close>

lemma idle_step:
  assumes "intervals st = []" and "\<not> startsFlow e"
  shows "intervals (plex_step e st) = []
         \<and> filter isPoll (calls (plex_step e st)) = filter isPoll (calls st)"
  using assms
  by (cases e)
     (auto simp: statusEffect_def startAuth_mutate_def startAuth_onError_def call_def
        settle_def onPollResult_def stopPolling_def onServers_def invalidate_def cancel_def
        selectServer_mutate_def selectServer_onSuccess_def selectServer_onError_def
        selectCall_def
        saveLibraries_onSuccess_def saveLibraries_onError_def disconnect_onSuccess_def
        split: option.split)

lemma idle_run:
  assumes "intervals st = []" and "\<not> list_ex startsFlow es"
  shows "intervals (plex_run es st) = []
         \<and> filter isPoll (calls (plex_run es st)) = filter isPoll (calls st)"
  using assms
proof (induction es arbitrary: st)
  case Nil
  then show ?case by simp
next
  case (Cons e es)
  then have "\<not> startsFlow e" "\<not> list_ex startsFlow es" by simp_all
  with Cons.IH [of "plex_step e st"] idle_step [of st e] Cons.prems(1) show ?case by simp
qed

text \<open>
  C5 (as amended). Cancelling in awaiting_auth clears the poll interval in the same
  step that sets the phase to idle; whatever happens afterwards, short of a new
  authorization being started, no further \<open>plexAuthPoll\<close> request is issued; and a poll
  answer that was in flight and reports "not authenticated", or fails, changes nothing
  of the flow but the set of calls in flight.
\<close>

theorem cancel_stops_polling:
  assumes "phase' (plexAfter pre) = AwaitingAuth" and "\<not> list_ex startsFlow es"
  shows "phase' (plex_step ClickCancelFlow (plexAfter pre)) = Idle
     \<and> intervals (plex_step ClickCancelFlow (plexAfter pre)) = []
     \<and> pollRef (plex_step ClickCancelFlow (plexAfter pre)) = None
     \<and> filter isPoll (calls (plex_run es (plex_step ClickCancelFlow (plexAfter pre))))
         = filter isPoll (calls (plexAfter pre))
     \<and> (plex_step (PollOk i False) (plex_step ClickCancelFlow (plexAfter pre)))
           \<lparr>pending := pending (plex_step ClickCancelFlow (plexAfter pre))\<rparr>
         = plex_step ClickCancelFlow (plexAfter pre)
     \<and> (plex_step (PollErr i) (plex_step ClickCancelFlow (plexAfter pre)))
           \<lparr>pending := pending (plex_step ClickCancelFlow (plexAfter pre))\<rparr>
         = plex_step ClickCancelFlow (plexAfter pre)"
proof -
  let ?st = "plexAfter pre"
  let ?c = "plex_step ClickCancelFlow ?st"
  have c: "?c = cancel ?st" using assms(1) by simp
  have stop: "intervals (stopPolling ?st) = [] \<and> pollRef (stopPolling ?st) = None"
    by (rule stopPolling_clears [OF pollInv_plexAfter])
  then have 1: "phase' ?c = Idle" "intervals ?c = []" "pollRef ?c = None"
    unfolding c by (simp_all add: cancel_def)
  have "calls ?c = calls ?st"
    unfolding c by (simp add: cancel_def stopPolling_def split: option.split)
  with idle_run [OF 1(2) assms(2)]
  have 2: "filter isPoll (calls (plex_run es ?c)) = filter isPoll (calls ?st)" by simp
  have 3: "(plex_step (PollOk i False) ?c)\<lparr>pending := pending ?c\<rparr> = ?c"
    "(plex_step (PollErr i) ?c)\<lparr>pending := pending ?c\<rparr> = ?c"
    by (simp_all add: onPollResult_def settle_def)
  from 1 2 3 show ?thesis by blast
qed

theorem cancel_stops_polling_witness:
  "phase' (plexAfter cancelRace) = AwaitingAuth
   \<and> \<not> list_ex startsFlow [Tick 1, PollOk 7 False, Tick 1]
   \<and> intervals (plexAfter cancelRace) = [(1, 2000, 7)]
   \<and> phase' (plex_step ClickCancelFlow (plexAfter cancelRace)) = Idle
   \<and> intervals (plex_step ClickCancelFlow (plexAfter cancelRace)) = []
   \<and> filter isPoll (calls (plex_run [Tick 1, PollOk 7 False, Tick 1]
        (plex_step ClickCancelFlow (plexAfter cancelRace)))) = [AuthPoll 7]"
proof -
  have 1: "phase' (plexAfter cancelRace) = AwaitingAuth"
    and 2: "intervals (plexAfter cancelRace) = [(1, 2000, 7)]"
    and 3: "filter isPoll (calls (plexAfter cancelRace)) = [AuthPoll 7]"
    by (simp_all add: cancelRace_def plexAfter_def initPlex_def statusEffect_def
        startAuth_mutate_def call_def settle_def startAuth_onSuccess_def startPolling_def
        stopPolling_def onTick_def Let_def)
  have 4: "\<not> list_ex startsFlow [Tick 1, PollOk 7 False, Tick 1]" by simp
  from cancel_stops_polling [OF 1 4, of 7]
  have a: "phase' (plex_step ClickCancelFlow (plexAfter cancelRace)) = Idle"
    and b: "intervals (plex_step ClickCancelFlow (plexAfter cancelRace)) = []"
    and c: "filter isPoll (calls (plex_run [Tick 1, PollOk 7 False, Tick 1]
        (plex_step ClickCancelFlow (plexAfter cancelRace))))
      = filter isPoll (calls (plexAfter cancelRace))"
    by blast+
  from c 3 have "filter isPoll (calls (plex_run [Tick 1, PollOk 7 False, Tick 1]
        (plex_step ClickCancelFlow (plexAfter cancelRace)))) = [AuthPoll 7]"
    by (simp only:)
  with 1 2 4 a b show ?thesis by blast
qed

text \<open>
  C5 as stated fails. A poll is in flight when the user cancels; its answer
  "authenticated" arrives after the cancel and is applied: the phase leaves idle for
  picking_server, \<open>plexServers\<close> is called, and its answer fills the server list.
\<close>

theorem cancel_race_counterexample:
  "phase' (plexAfter (cancelRace @ [ClickCancelFlow])) = Idle
   \<and> pending (plexAfter (cancelRace @ [ClickCancelFlow])) = [AuthPoll 7]
   \<and> phase' (plexAfter (cancelRace @ [ClickCancelFlow, PollOk 7 True])) = PickingServer
   \<and> calls (plexAfter (cancelRace @ [ClickCancelFlow, PollOk 7 True]))
       = [AuthStart, AuthPoll 7, Servers]
   \<and> servers (plexAfter (cancelRace @ [ClickCancelFlow, PollOk 7 True, ServersOk [someServer]]))
       = [someServer]"
  by (simp add: cancelRace_def plexAfter_def initPlex_def statusEffect_def
      startAuth_mutate_def call_def settle_def startAuth_onSuccess_def startPolling_def
      stopPolling_def onTick_def onPollResult_def cancel_def onServers_def invalidate_def
      Let_def)

subsection \<open>Failed submissions\<close>

text \<open>
  C8. A failed \<open>plexAuthStart\<close> sets the phase to idle and the error to the message of
  the failure; a failed \<open>plexSelectServer\<close> sets the phase to picking_server and the
  error to the message; neither issues a call. A \<open>plexAuthStart\<close> call is issued by the
  connect button only and a \<open>plexSelectServer\<close> call by the server picker only, so no
  other event, a failure included, repeats the request.
\<close>

theorem submission_errors_revert:
  "(AuthStart \<in> set (pending st) \<longrightarrow>
      phase' (plex_step (AuthStartErr message) st) = Idle
      \<and> error (plex_step (AuthStartErr message) st) = Some message
      \<and> calls (plex_step (AuthStartErr message) st) = calls st)
   \<and> (selectCall s \<in> set (pending st) \<longrightarrow>
      phase' (plex_step (SelectErr s message) st) = PickingServer
      \<and> error (plex_step (SelectErr s message) st) = Some message
      \<and> calls (plex_step (SelectErr s message) st) = calls st)
   \<and> (e \<noteq> ClickConnect \<longrightarrow>
      count_list (calls (plex_step e st)) AuthStart = count_list (calls st) AuthStart)
   \<and> ((\<forall>s'. e \<noteq> ClickSelect s') \<longrightarrow>
      filter isSelect (calls (plex_step e st)) = filter isSelect (calls st))"
proof -
  have 1: "phase' (plex_step (AuthStartErr message) st) = Idle
      \<and> error (plex_step (AuthStartErr message) st) = Some message
      \<and> calls (plex_step (AuthStartErr message) st) = calls st"
    if "AuthStart \<in> set (pending st)"
    using that by (simp add: startAuth_onError_def settle_def)
  have 2: "phase' (plex_step (SelectErr s message) st) = PickingServer
      \<and> error (plex_step (SelectErr s message) st) = Some message
      \<and> calls (plex_step (SelectErr s message) st) = calls st"
    if "selectCall s \<in> set (pending st)"
    using that by (simp add: selectServer_onError_def settle_def)
  have 3: "count_list (calls (plex_step e st)) AuthStart = count_list (calls st) AuthStart"
    if "e \<noteq> ClickConnect"
    using that
    by (cases e)
       (auto simp: statusEffect_def startAuth_onError_def startAuth_onSuccess_def
          startPolling_def onTick_def call_def
          settle_def onPollResult_def stopPolling_def onServers_def invalidate_def cancel_def
          selectServer_mutate_def selectServer_onSuccess_def selectServer_onError_def
          selectCall_def Let_def
          saveLibraries_onSuccess_def saveLibraries_onError_def disconnect_onSuccess_def
          split: option.split list.split)
  have 4: "filter isSelect (calls (plex_step e st)) = filter isSelect (calls st)"
    if "\<forall>s'. e \<noteq> ClickSelect s'"
    using that
    by (cases e)
       (auto simp: statusEffect_def startAuth_mutate_def startAuth_onError_def
          startAuth_onSuccess_def startPolling_def onTick_def call_def
          settle_def onPollResult_def stopPolling_def onServers_def invalidate_def cancel_def
          selectServer_onSuccess_def selectServer_onError_def Let_def
          saveLibraries_onSuccess_def saveLibraries_onError_def disconnect_onSuccess_def
          split: option.split list.split)
  from 1 2 3 4 show ?thesis by blast
qed

theorem submission_errors_revert_witness:
  "AuthStart \<in> set (pending (plexAfter [StatusLoaded False, ClickConnect]))
   \<and> phase' (plexAfter [StatusLoaded False]) = Idle
   \<and> phase' (plexAfter [StatusLoaded False, ClickConnect]) = Starting
   \<and> phase' (plex_step (AuthStartErr ''502 Bad Gateway'')
        (plexAfter [StatusLoaded False, ClickConnect])) = Idle
   \<and> error (plex_step (AuthStartErr ''502 Bad Gateway'')
        (plexAfter [StatusLoaded False, ClickConnect])) = Some ''502 Bad Gateway''
   \<and> calls (plex_step (AuthStartErr ''502 Bad Gateway'')
        (plexAfter [StatusLoaded False, ClickConnect])) = [AuthStart]"
proof -
  have 1: "AuthStart \<in> set (pending (plexAfter [StatusLoaded False, ClickConnect]))"
    and 2: "phase' (plexAfter [StatusLoaded False]) = Idle"
    and 3: "phase' (plexAfter [StatusLoaded False, ClickConnect]) = Starting"
    and 4: "calls (plexAfter [StatusLoaded False, ClickConnect]) = [AuthStart]"
    by (simp_all add: plexAfter_def initPlex_def statusEffect_def startAuth_mutate_def call_def)
  from submission_errors_revert [of "plexAfter [StatusLoaded False, ClickConnect]"
      "''502 Bad Gateway''" someServer "AuthStartErr ''502 Bad Gateway''"] 1 2 3 4
  show ?thesis by simp
qed

end
